theory Spec2Isabelle
  imports Complex_Main
begin

section \<open>WorkLog settlement: data model\<close>

text \<open>
  The embedding follows \<^verbatim>\<open>backend/app/api/routes/worklog\<close>: the enums and tables of
  \<^verbatim>\<open>models.py\<close>, the response records of \<^verbatim>\<open>schemas.py\<close> and the two operations of
  \<^verbatim>\<open>service.py\<close>. A UUID is a natural number. A \<^verbatim>\<open>datetime\<close> is an integer count of
  microseconds (the resolution of Python's \<^verbatim>\<open>datetime\<close>), so a \<^verbatim>\<open>timedelta\<close> is an
  integer too. A \<^verbatim>\<open>Decimal\<close> is the rational number it denotes. The
  \<^verbatim>\<open>created_at\<close> columns, which the service only copies, are left out.
\<close>

type_synonym uuid = nat
type_synonym datetime = int
type_synonym decimal = rat

datatype TimeSegmentStatus = ACTIVE | REMOVED | DISPUTED

datatype SettlementStatus = UNREMITTED | REMITTED

datatype AdjustmentType = DEDUCTION | BONUS | CORRECTION

datatype RemittanceStatus = PENDING | PROCESSING | COMPLETED | FAILED | CANCELLED

record date =
  d_year :: int
  d_month :: int
  d_day :: int

record Remittance =
  rem_id :: uuid
  rem_worker_id :: uuid
  gross_amount :: decimal
  net_amount :: decimal
  rem_status :: RemittanceStatus
  failure_reason :: "string option"
  rem_period_start :: "date \<times> int"
  rem_period_end :: "date \<times> int"
  processed_at :: "datetime option"

record WorkLog =
  wl_id :: uuid
  task_id :: uuid
  worker_id :: uuid
  hourly_rate :: decimal
  total_remitted_amount :: decimal
  wl_remittance_id :: "uuid option"

record TimeSegment =
  seg_id :: uuid
  seg_worklog_id :: uuid
  start_time :: datetime
  end_time :: datetime
  seg_status :: TimeSegmentStatus
  seg_settlement_status :: SettlementStatus
  seg_remittance_id :: "uuid option"

record Adjustment =
  adj_id :: uuid
  adj_worklog_id :: uuid
  amount :: decimal
  reason :: string
  adj_type :: AdjustmentType
  adj_settlement_status :: SettlementStatus
  adj_remittance_id :: "uuid option"

text \<open>
  The session: the four tables, each in the order in which a \<^verbatim>\<open>select\<close> returns its rows.
\<close>

record Session =
  worklogs :: "WorkLog list"
  time_segments :: "TimeSegment list"
  adjustments :: "Adjustment list"
  remittances :: "Remittance list"

text \<open>The \<^verbatim>\<open>HTTPException(status_code=400, ...)\<close> raised by the service, by cause.\<close>

datatype error =
  NegativeDuration uuid
  | PeriodEndBeforeStart
  | InvalidRemittanceStatus

section \<open>Decimal arithmetic\<close>

text \<open>
  Python's \<^verbatim>\<open>decimal\<close> module rounds the exact result of \<^verbatim>\<open>/\<close> and \<^verbatim>\<open>*\<close> to the
  precision of the context, 28 significant digits by default, with ties to the even
  digit. The service never changes the context. \<open>ndigits n\<close> is the number of decimal
  digits of \<open>n\<close>, \<open>adjusted x\<close> the exponent of the leading digit of \<open>x \<noteq> 0\<close>.
  Sums and comparisons are exact: a sum of amounts of two decimal places stays below
  28 digits for every value the \<^verbatim>\<open>max_digits=12\<close> columns hold.
\<close>

fun ndigits :: "nat \<Rightarrow> nat" where
  "ndigits n = (if n < 10 then 1 else Suc (ndigits (n div 10)))"

declare ndigits.simps [simp del]

definition pow10 :: "int \<Rightarrow> rat" where
  "pow10 k = (if 0 \<le> k then 10 ^ nat k else 1 / 10 ^ nat (- k))"

definition round_half_even :: "rat \<Rightarrow> int" where
  "round_half_even x =
     (let f = \<lfloor>x\<rfloor>; r = x - of_int f
      in if r < 1 / 2 then f
         else if 1 / 2 < r then f + 1
         else if even f then f else f + 1)"

definition adjusted :: "rat \<Rightarrow> int" where
  "adjusted x =
     (let a = \<bar>x\<bar>
      in if 1 \<le> a then int (ndigits (nat \<lfloor>a\<rfloor>)) - 1
         else - int (ndigits (nat (\<lceil>1 / a\<rceil> - 1))))"

definition ctx_round :: "rat \<Rightarrow> decimal" where
  "ctx_round x =
     (if x = 0 then 0
      else let s = pow10 (27 - adjusted x)
           in of_int (round_half_even (x * s)) / s)"

definition dec_div :: "decimal \<Rightarrow> decimal \<Rightarrow> decimal" where
  "dec_div a b = ctx_round (a / b)"

definition dec_mul :: "decimal \<Rightarrow> decimal \<Rightarrow> decimal" where
  "dec_mul a b = ctx_round (a * b)"

text \<open>
  \<^verbatim>\<open>x.quantize(Decimal("0.01"), rounding=ROUND_HALF_UP)\<close>: two places, ties away from
  zero; and \<^verbatim>\<open>x.quantize(Decimal("0.01"))\<close>, which rounds as the context does, ties to
  even.
\<close>

definition quantize_half_up :: "decimal \<Rightarrow> decimal" where
  "quantize_half_up x =
     (let n = \<lfloor>\<bar>x\<bar> * 100 + 1 / 2\<rfloor>
      in (if x < 0 then - of_int n else of_int n) / 100)"

definition quantize :: "decimal \<Rightarrow> decimal" where
  "quantize x = of_int (round_half_even (x * 100)) / 100"

text \<open>
  \<^verbatim>\<open>timedelta.total_seconds()\<close> read back through \<^verbatim>\<open>Decimal(str(...))\<close>: the number of
  seconds, to the microsecond (Python documents the float as accurate to the microsecond
  for intervals under 270 years).
\<close>

definition total_seconds :: "int \<Rightarrow> decimal" where
  "total_seconds duration = of_int duration / 1000000"

section \<open>Calculation helpers\<close>

definition calculate_segment_amount :: "TimeSegment \<Rightarrow> decimal \<Rightarrow> error + decimal" where
  "calculate_segment_amount segment rate =
     (if seg_status segment \<noteq> ACTIVE then Inr 0
      else let duration = end_time segment - start_time segment
           in if total_seconds duration < 0 then Inl (NegativeDuration (seg_id segment))
              else let hours = dec_div (total_seconds duration) 3600
                   in Inr (quantize_half_up (dec_mul hours rate)))"

text \<open>
  The relationships \<^verbatim>\<open>worklog.time_segments\<close> and \<^verbatim>\<open>worklog.adjustments\<close>: the rows whose
  foreign key is the worklog's id.
\<close>

definition wl_time_segments :: "Session \<Rightarrow> WorkLog \<Rightarrow> TimeSegment list" where
  "wl_time_segments session worklog =
     filter (\<lambda>s. seg_worklog_id s = wl_id worklog) (time_segments session)"

definition wl_adjustments :: "Session \<Rightarrow> WorkLog \<Rightarrow> Adjustment list" where
  "wl_adjustments session worklog =
     filter (\<lambda>a. adj_worklog_id a = wl_id worklog) (adjustments session)"

text \<open>The two loops of \<^verbatim>\<open>_calculate_worklog_amounts\<close>, on the pair (remitted, unremitted).\<close>

fun ledger_segments ::
  "decimal \<Rightarrow> TimeSegment list \<Rightarrow> decimal \<times> decimal \<Rightarrow> error + decimal \<times> decimal" where
  "ledger_segments rate [] acc = Inr acc"
| "ledger_segments rate (segment # rest) (remitted, unremitted) =
     (if seg_status segment \<noteq> ACTIVE then ledger_segments rate rest (remitted, unremitted)
      else case calculate_segment_amount segment rate of
             Inl e \<Rightarrow> Inl e
           | Inr a \<Rightarrow>
               if seg_settlement_status segment = REMITTED
               then ledger_segments rate rest (remitted + a, unremitted)
               else ledger_segments rate rest (remitted, unremitted + a))"

fun ledger_adjustments :: "Adjustment list \<Rightarrow> decimal \<times> decimal \<Rightarrow> decimal \<times> decimal" where
  "ledger_adjustments [] acc = acc"
| "ledger_adjustments (adj # rest) (remitted, unremitted) =
     (if adj_settlement_status adj = REMITTED
      then ledger_adjustments rest (remitted + amount adj, unremitted)
      else ledger_adjustments rest (remitted, unremitted + amount adj))"

definition calculate_worklog_amounts ::
  "Session \<Rightarrow> WorkLog \<Rightarrow> error + decimal \<times> decimal \<times> decimal" where
  "calculate_worklog_amounts session worklog =
     (case ledger_segments (hourly_rate worklog) (wl_time_segments session worklog) (0, 0) of
        Inl e \<Rightarrow> Inl e
      | Inr acc \<Rightarrow>
          (case ledger_adjustments (wl_adjustments session worklog) acc of
             (remitted, unremitted) \<Rightarrow> Inr (remitted, unremitted, remitted + unremitted)))"

text \<open>
  \<^verbatim>\<open>_resolve_period\<close>. The first of the month plus 32 days lies in the next month, so
  \<^verbatim>\<open>next_month - timedelta(days=1)\<close> is the last day of today's month.
\<close>

definition date_less :: "date \<Rightarrow> date \<Rightarrow> bool" where
  "date_less a b =
     (d_year a < d_year b
      \<or> (d_year a = d_year b
          \<and> (d_month a < d_month b \<or> (d_month a = d_month b \<and> d_day a < d_day b))))"

definition days_in_month :: "int \<Rightarrow> int \<Rightarrow> int" where
  "days_in_month y m =
     (if m = 2 then (if y mod 4 = 0 \<and> (y mod 100 \<noteq> 0 \<or> y mod 400 = 0) then 29 else 28)
      else if m = 4 \<or> m = 6 \<or> m = 9 \<or> m = 11 then 30 else 31)"

definition resolve_period :: "date \<Rightarrow> date option \<Rightarrow> date option \<Rightarrow> error + date \<times> date" where
  "resolve_period today period_start period_end =
     (let ps = (case period_start of None \<Rightarrow> today\<lparr>d_day := 1\<rparr> | Some d \<Rightarrow> d);
          pe = (case period_end of
                  None \<Rightarrow> today\<lparr>d_day := days_in_month (d_year today) (d_month today)\<rparr>
                | Some d \<Rightarrow> d)
      in if date_less pe ps then Inl PeriodEndBeforeStart else Inr (ps, pe))"

section \<open>Listing worklogs\<close>

record TimeSegmentPublic =
  tsp_id :: uuid
  tsp_start_time :: datetime
  tsp_end_time :: datetime
  tsp_status :: TimeSegmentStatus
  tsp_settlement_status :: SettlementStatus

record AdjustmentPublic =
  ap_id :: uuid
  ap_amount :: decimal
  ap_reason :: string
  ap_type :: AdjustmentType
  ap_settlement_status :: SettlementStatus

record WorkLogAmount =
  remitted_amount :: decimal
  unremitted_amount :: decimal
  total_amount :: decimal

record WorkLogPublic =
  wp_id :: uuid
  wp_task_id :: uuid
  wp_worker_id :: uuid
  wp_hourly_rate :: decimal
  wp_remittance_id :: "uuid option"
  wp_time_segments :: "TimeSegmentPublic list"
  wp_adjustments :: "AdjustmentPublic list"
  amounts :: WorkLogAmount
  remittance_status :: string

definition time_segment_public :: "TimeSegment \<Rightarrow> TimeSegmentPublic" where
  "time_segment_public seg =
     \<lparr>tsp_id = seg_id seg, tsp_start_time = start_time seg, tsp_end_time = end_time seg,
      tsp_status = seg_status seg, tsp_settlement_status = seg_settlement_status seg\<rparr>"

definition adjustment_public :: "Adjustment \<Rightarrow> AdjustmentPublic" where
  "adjustment_public adj =
     \<lparr>ap_id = adj_id adj, ap_amount = amount adj, ap_reason = reason adj,
      ap_type = adj_type adj, ap_settlement_status = adj_settlement_status adj\<rparr>"

text \<open>The classification of \<^verbatim>\<open>list_all_worklogs\<close>.\<close>

definition wl_status_of :: "decimal \<Rightarrow> decimal \<Rightarrow> string" where
  "wl_status_of unremitted tot =
     (if 0 < unremitted \<or> tot = 0 then ''UNREMITTED'' else ''REMITTED'')"

fun list_loop ::
  "Session \<Rightarrow> string option \<Rightarrow> WorkLog list \<Rightarrow> WorkLogPublic list \<Rightarrow> error + WorkLogPublic list" where
  "list_loop session flt [] result = Inr result"
| "list_loop session flt (wl # rest) result =
     (case calculate_worklog_amounts session wl of
        Inl e \<Rightarrow> Inl e
      | Inr (remitted, unremitted, tot) \<Rightarrow>
          let wl_status = wl_status_of unremitted tot
          in if flt \<noteq> None \<and> Some wl_status \<noteq> flt then list_loop session flt rest result
             else list_loop session flt rest
                    (result @
                     [\<lparr>wp_id = wl_id wl, wp_task_id = task_id wl, wp_worker_id = worker_id wl,
                       wp_hourly_rate = hourly_rate wl, wp_remittance_id = wl_remittance_id wl,
                       wp_time_segments = map time_segment_public (wl_time_segments session wl),
                       wp_adjustments = map adjustment_public (wl_adjustments session wl),
                       amounts = \<lparr>remitted_amount = remitted, unremitted_amount = unremitted,
                                  total_amount = tot\<rparr>,
                       remittance_status = wl_status\<rparr>]))"

definition list_all_worklogs ::
  "Session \<Rightarrow> string option \<Rightarrow> error + WorkLogPublic list \<times> nat" where
  "list_all_worklogs session flt =
     (if flt \<notin> {Some ''REMITTED'', Some ''UNREMITTED'', None} then Inl InvalidRemittanceStatus
      else case list_loop session flt (worklogs session) [] of
             Inl e \<Rightarrow> Inl e
           | Inr result \<Rightarrow> Inr (result, length result))"

section \<open>Generating remittances\<close>

record GenerateRemittancesRequest =
  req_period_start :: "date option"
  req_period_end :: "date option"
  dry_run :: bool
  payout_status :: "RemittanceStatus option"

record RemittancePublic =
  rp_id :: uuid
  rp_worker_id :: uuid
  rp_gross_amount :: decimal
  rp_net_amount :: decimal
  rp_status :: RemittanceStatus
  worklogs_count :: nat
  rp_period_start :: date
  rp_period_end :: date

record GenerateRemittancesResponse =
  remittances_created :: nat
  total_gross_amount :: decimal
  total_net_amount :: decimal
  resp_remittances :: "RemittancePublic list"
  resp_dry_run :: bool
  resp_period_start :: date
  resp_period_end :: date

text \<open>
  What the call reads from outside the session: \<^verbatim>\<open>date.today()\<close>,
  \<^verbatim>\<open>datetime.now(timezone.utc)\<close> and the values \<^verbatim>\<open>uuid.uuid4()\<close> returns, in the order
  drawn.
\<close>

record Env =
  today :: date
  now :: datetime
  uuid4 :: "nat \<Rightarrow> uuid"

text \<open>The two queries, and the lookup of a worklog by primary key.\<close>

definition unremitted_segments :: "Session \<Rightarrow> TimeSegment list" where
  "unremitted_segments session =
     filter (\<lambda>s. seg_status s = ACTIVE \<and> seg_settlement_status s = UNREMITTED)
       (time_segments session)"

definition unremitted_adjustments :: "Session \<Rightarrow> Adjustment list" where
  "unremitted_adjustments session =
     filter (\<lambda>a. adj_settlement_status a = UNREMITTED) (adjustments session)"

definition get_worklog :: "Session \<Rightarrow> uuid \<Rightarrow> WorkLog option" where
  "get_worklog session k = find (\<lambda>w. wl_id w = k) (worklogs session)"

text \<open>
  Grouping. Each unit is paired with its worklog; a unit whose worklog is not found is
  dropped. The cache of the source returns what the lookup returns, since nothing is
  written while the groups are built. \<^verbatim>\<open>worker_segments[w]\<close> is the sublist of the pairs
  whose worklog belongs to \<open>w\<close>. The workers are visited in the order of \<open>all_worker_ids\<close>;
  the source iterates a set, in no specified order.
\<close>

fun pair_worklogs :: "Session \<Rightarrow> ('a \<Rightarrow> uuid) \<Rightarrow> 'a list \<Rightarrow> ('a \<times> WorkLog) list" where
  "pair_worklogs session key [] = []"
| "pair_worklogs session key (x # xs) =
     (case get_worklog session (key x) of
        None \<Rightarrow> pair_worklogs session key xs
      | Some wl \<Rightarrow> (x, wl) # pair_worklogs session key xs)"

definition worker_get :: "('a \<times> WorkLog) list \<Rightarrow> uuid \<Rightarrow> ('a \<times> WorkLog) list" where
  "worker_get pairs w = filter (\<lambda>p. worker_id (snd p) = w) pairs"

definition all_worker_ids ::
  "(TimeSegment \<times> WorkLog) list \<Rightarrow> (Adjustment \<times> WorkLog) list \<Rightarrow> uuid list" where
  "all_worker_ids worker_segments worker_adjustments =
     remdups (map (\<lambda>p. worker_id (snd p)) worker_segments
              @ map (\<lambda>p. worker_id (snd p)) worker_adjustments)"

text \<open>Gross and net of one worker: the pair (gross, net) through both loops.\<close>

fun sum_segments ::
  "(TimeSegment \<times> WorkLog) list \<Rightarrow> decimal \<times> decimal \<Rightarrow> error + decimal \<times> decimal" where
  "sum_segments [] acc = Inr acc"
| "sum_segments ((seg, wl) # rest) (gross, net) =
     (case calculate_segment_amount seg (hourly_rate wl) of
        Inl e \<Rightarrow> Inl e
      | Inr a \<Rightarrow> sum_segments rest (if 0 < a then gross + a else gross, net + a))"

fun sum_adjustments ::
  "(Adjustment \<times> WorkLog) list \<Rightarrow> decimal \<times> decimal \<Rightarrow> decimal \<times> decimal" where
  "sum_adjustments [] acc = acc"
| "sum_adjustments ((adj, wl) # rest) (gross, net) =
     sum_adjustments rest (if 0 < amount adj then gross + amount adj else gross, net + amount adj)"

text \<open>Writes to a row, found by its primary key.\<close>

definition update_segment :: "uuid \<Rightarrow> (TimeSegment \<Rightarrow> TimeSegment) \<Rightarrow> Session \<Rightarrow> Session" where
  "update_segment k f session =
     session\<lparr>time_segments := map (\<lambda>s. if seg_id s = k then f s else s) (time_segments session)\<rparr>"

definition update_adjustment :: "uuid \<Rightarrow> (Adjustment \<Rightarrow> Adjustment) \<Rightarrow> Session \<Rightarrow> Session" where
  "update_adjustment k f session =
     session\<lparr>adjustments := map (\<lambda>a. if adj_id a = k then f a else a) (adjustments session)\<rparr>"

definition update_worklog :: "uuid \<Rightarrow> (WorkLog \<Rightarrow> WorkLog) \<Rightarrow> Session \<Rightarrow> Session" where
  "update_worklog k f session =
     session\<lparr>worklogs := map (\<lambda>w. if wl_id w = k then f w else w) (worklogs session)\<rparr>"

text \<open>The two marking loops of a COMPLETED remittance.\<close>

fun mark_segments :: "uuid \<Rightarrow> (TimeSegment \<times> WorkLog) list \<Rightarrow> Session \<Rightarrow> error + Session" where
  "mark_segments rid [] session = Inr session"
| "mark_segments rid ((seg, wl) # rest) session =
     (let set_remitted = (\<lambda>s. s\<lparr>seg_settlement_status := REMITTED, seg_remittance_id := Some rid\<rparr>);
          s1 = update_segment (seg_id seg) set_remitted session
      in case calculate_segment_amount (set_remitted seg) (hourly_rate wl) of
           Inl e \<Rightarrow> Inl e
         | Inr a \<Rightarrow>
             mark_segments rid rest
               (update_worklog (wl_id wl)
                  (\<lambda>w. w\<lparr>total_remitted_amount := total_remitted_amount w + a,
                         wl_remittance_id := Some rid\<rparr>) s1))"

fun mark_adjustments :: "uuid \<Rightarrow> (Adjustment \<times> WorkLog) list \<Rightarrow> Session \<Rightarrow> Session" where
  "mark_adjustments rid [] session = session"
| "mark_adjustments rid ((adj, wl) # rest) session =
     (let s1 = update_adjustment (adj_id adj)
                 (\<lambda>a. a\<lparr>adj_settlement_status := REMITTED, adj_remittance_id := Some rid\<rparr>) session
      in mark_adjustments rid rest
           (update_worklog (wl_id wl)
              (\<lambda>w. w\<lparr>total_remitted_amount := total_remitted_amount w + amount adj\<rparr>) s1))"

text \<open>
  The state of the loop over the workers: the session with its pending writes, the
  response list, the running totals, and how many UUIDs have been drawn.
\<close>

record Batch =
  b_session :: Session
  b_remittances :: "RemittancePublic list"
  total_gross :: decimal
  total_net :: decimal
  uuids_drawn :: nat

definition status_value :: "RemittanceStatus \<Rightarrow> string" where
  "status_value s =
     (case s of PENDING \<Rightarrow> ''PENDING'' | PROCESSING \<Rightarrow> ''PROCESSING''
      | COMPLETED \<Rightarrow> ''COMPLETED'' | FAILED \<Rightarrow> ''FAILED'' | CANCELLED \<Rightarrow> ''CANCELLED'')"

definition outcome_status :: "GenerateRemittancesRequest \<Rightarrow> RemittanceStatus" where
  "outcome_status request = (case payout_status request of None \<Rightarrow> COMPLETED | Some s \<Rightarrow> s)"

definition worker_totals ::
  "(TimeSegment \<times> WorkLog) list \<Rightarrow> (Adjustment \<times> WorkLog) list \<Rightarrow> error + decimal \<times> decimal" where
  "worker_totals w_segments w_adjustments =
     (case sum_segments w_segments (0, 0) of
        Inl e \<Rightarrow> Inl e
      | Inr acc \<Rightarrow> Inr (sum_adjustments w_adjustments acc))"

text \<open>
  The \<^verbatim>\<open>RemittancePublic\<close> built from a remittance, and the three updates that end an
  iteration: the append to \<^verbatim>\<open>remittances_created\<close> and the two running totals.
\<close>

definition remittance_public ::
  "uuid \<Rightarrow> Remittance \<Rightarrow> nat \<Rightarrow> date \<times> date \<Rightarrow> RemittancePublic" where
  "remittance_public pid remittance n period =
     \<lparr>rp_id = pid, rp_worker_id = rem_worker_id remittance,
      rp_gross_amount = gross_amount remittance, rp_net_amount = net_amount remittance,
      rp_status = rem_status remittance, worklogs_count = n,
      rp_period_start = fst period, rp_period_end = snd period\<rparr>"

definition append_created :: "RemittancePublic \<Rightarrow> decimal \<Rightarrow> decimal \<Rightarrow> Batch \<Rightarrow> Batch" where
  "append_created r gross net b =
     b\<lparr>b_remittances := (b_remittances b) @ [r],
       total_gross := total_gross b + gross,
       total_net := total_net b + net\<rparr>"

definition new_remittance ::
  "Env \<Rightarrow> GenerateRemittancesRequest \<Rightarrow> date \<times> date \<Rightarrow> uuid \<Rightarrow> nat \<Rightarrow> decimal \<Rightarrow> decimal \<Rightarrow>
   Remittance" where
  "new_remittance env request period w drawn gross net =
     (let status = outcome_status request;
          reason_text =
            (if status = FAILED \<or> status = CANCELLED
             then Some (''Payout marked as '' @ status_value status @ '' by request'')
             else None)
      in \<lparr>rem_id = uuid4 env drawn, rem_worker_id = w,
          gross_amount = quantize gross, net_amount = quantize net,
          rem_status = status, failure_reason = reason_text,
          rem_period_start = (fst period, 0),
          rem_period_end = (snd period, 86399999999),
          processed_at = (if status = COMPLETED then Some (now env) else None)\<rparr>)"

definition persist :: "Remittance \<Rightarrow> Session \<Rightarrow> Session" where
  "persist remittance session = session\<lparr>remittances := remittances session @ [remittance]\<rparr>"

definition mark_remitted ::
  "uuid \<Rightarrow> (TimeSegment \<times> WorkLog) list \<Rightarrow> (Adjustment \<times> WorkLog) list \<Rightarrow> Session \<Rightarrow>
   error + Session" where
  "mark_remitted rid w_segments w_adjustments session =
     (case mark_segments rid w_segments session of
        Inl e \<Rightarrow> Inl e
      | Inr s2 \<Rightarrow> Inr (mark_adjustments rid w_adjustments s2))"

definition process_worker ::
  "Env \<Rightarrow> GenerateRemittancesRequest \<Rightarrow> date \<times> date \<Rightarrow> (TimeSegment \<times> WorkLog) list \<Rightarrow>
   (Adjustment \<times> WorkLog) list \<Rightarrow> uuid \<Rightarrow> Batch \<Rightarrow> error + Batch" where
  "process_worker env request period worker_segments worker_adjustments w b =
     (let w_segments = worker_get worker_segments w;
          w_adjustments = worker_get worker_adjustments w
      in case worker_totals w_segments w_adjustments of
           Inl e \<Rightarrow> Inl e
         | Inr (gross, net) \<Rightarrow>
             let worklog_ids = remdups (map (\<lambda>p. wl_id (snd p)) w_segments
                                        @ map (\<lambda>p. wl_id (snd p)) w_adjustments)
             in if gross = 0 \<and> net = 0 then Inr b
                else
                  let remittance = new_remittance env request period w (uuids_drawn b) gross net
                  in if dry_run request
                     then Inr (append_created
                                 (remittance_public (uuid4 env (uuids_drawn b + 1)) remittance
                                    (length worklog_ids) period)
                                 gross net (b\<lparr>uuids_drawn := uuids_drawn b + 2\<rparr>))
                     else
                       (case (if rem_status remittance = COMPLETED
                              then mark_remitted (rem_id remittance) w_segments w_adjustments
                                     (persist remittance (b_session b))
                              else Inr (persist remittance (b_session b))) of
                          Inl e \<Rightarrow> Inl e
                        | Inr s3 \<Rightarrow>
                            Inr (append_created
                                   (remittance_public (rem_id remittance) remittance
                                      (length worklog_ids) period)
                                   gross net
                                   (b\<lparr>b_session := s3, uuids_drawn := uuids_drawn b + 1\<rparr>))))"

fun process_workers ::
  "Env \<Rightarrow> GenerateRemittancesRequest \<Rightarrow> date \<times> date \<Rightarrow> (TimeSegment \<times> WorkLog) list \<Rightarrow>
   (Adjustment \<times> WorkLog) list \<Rightarrow> uuid list \<Rightarrow> Batch \<Rightarrow> error + Batch" where
  "process_workers env request period worker_segments worker_adjustments [] b = Inr b"
| "process_workers env request period worker_segments worker_adjustments (w # ws) b =
     (case process_worker env request period worker_segments worker_adjustments w b of
        Inl e \<Rightarrow> Inl e
      | Inr b' \<Rightarrow> process_workers env request period worker_segments worker_adjustments ws b')"

text \<open>
  The loop of one call, from the session as it is read. \<open>run_batch\<close> is the body of
  \<^verbatim>\<open>generate_remittances\<close> up to the commit.
\<close>

definition run_batch ::
  "Env \<Rightarrow> Session \<Rightarrow> GenerateRemittancesRequest \<Rightarrow> date \<times> date \<Rightarrow> error + Batch" where
  "run_batch env session request period =
     (let worker_segments = pair_worklogs session seg_worklog_id (unremitted_segments session);
          worker_adjustments = pair_worklogs session adj_worklog_id (unremitted_adjustments session)
      in process_workers env request period worker_segments worker_adjustments
           (all_worker_ids worker_segments worker_adjustments)
           \<lparr>b_session = session, b_remittances = [], total_gross = 0, total_net = 0,
            uuids_drawn = 0\<rparr>)"

text \<open>
  \<^verbatim>\<open>generate_remittances\<close> returns the stored state with the response. The pending writes
  are stored by \<^verbatim>\<open>session.commit()\<close>, which a dry run does not reach; an exception leaves
  the call before the commit, and is the result \<open>Inl\<close>.
\<close>

definition generate_remittances ::
  "Env \<Rightarrow> Session \<Rightarrow> GenerateRemittancesRequest \<Rightarrow> error + Session \<times> GenerateRemittancesResponse" where
  "generate_remittances env session request =
     (case resolve_period (today env) (req_period_start request) (req_period_end request) of
        Inl e \<Rightarrow> Inl e
      | Inr period \<Rightarrow>
          (case run_batch env session request period of
             Inl e \<Rightarrow> Inl e
           | Inr b \<Rightarrow>
               Inr (if dry_run request then session else b_session b,
                    \<lparr>remittances_created = length (b_remittances b),
                     total_gross_amount = quantize (total_gross b),
                     total_net_amount = quantize (total_net b),
                     resp_remittances = b_remittances b,
                     resp_dry_run = dry_run request,
                     resp_period_start = fst period,
                     resp_period_end = snd period\<rparr>)))"

section \<open>Notions used in the statements\<close>


text \<open>
  The price of a paired segment as a number (0 where pricing raises), and whether pricing
  it returns.
\<close>

definition seg_price :: "TimeSegment \<times> WorkLog \<Rightarrow> decimal" where
  "seg_price p = (case calculate_segment_amount (fst p) (hourly_rate (snd p)) of Inl e \<Rightarrow> 0 | Inr a \<Rightarrow> a)"

definition priced :: "TimeSegment \<times> WorkLog \<Rightarrow> bool" where
  "priced p = (case calculate_segment_amount (fst p) (hourly_rate (snd p)) of Inl e \<Rightarrow> False | Inr a \<Rightarrow> True)"

text \<open>A worker is due when the loop does not skip it: gross and net are not both 0.\<close>

definition is_due :: "(TimeSegment \<times> WorkLog) list \<Rightarrow> (Adjustment \<times> WorkLog) list \<Rightarrow> uuid \<Rightarrow> bool" where
  "is_due segs adjs w \<longleftrightarrow> worker_totals (worker_get segs w) (worker_get adjs w) \<noteq> Inr (0, 0)"

text \<open>
  Gross is not negative and net does not exceed gross: in the response list, in the
  running totals, and in every remittance row that was not in the session \<open>s0\<close>.
\<close>

definition amounts_ok :: "Session \<Rightarrow> Batch \<Rightarrow> bool" where
  "amounts_ok s0 b \<longleftrightarrow>
     (\<forall>r\<in>set (b_remittances b). 0 \<le> rp_gross_amount r \<and> rp_net_amount r \<le> rp_gross_amount r)
     \<and> 0 \<le> total_gross b \<and> total_net b \<le> total_gross b
     \<and> (\<forall>R\<in>set (remittances (b_session b)).
           R \<in> set (remittances s0) \<or> (0 \<le> gross_amount R \<and> net_amount R \<le> gross_amount R))"

text \<open>Two loop states list the same remittances, ids apart, with the same totals.\<close>

definition same_summaries :: "Batch \<Rightarrow> Batch \<Rightarrow> bool" where
  "same_summaries bd br \<longleftrightarrow>
     map (\<lambda>r. r\<lparr>rp_id := 0\<rparr>) (b_remittances bd) = map (\<lambda>r. r\<lparr>rp_id := 0\<rparr>) (b_remittances br)
     \<and> total_gross bd = total_gross br \<and> total_net bd = total_net br"

text \<open>
  The writes of a COMPLETED iteration, table by table. \<open>mark_rows\<close> applies \<open>upd\<close> to the
  rows whose key is in \<open>M\<close>; \<open>set_remitted_seg\<close> and \<open>set_remitted_adj\<close> are the two
  assignments to a unit; \<open>credit_seg\<close> and \<open>credit_adj\<close> are what the two marking loops
  leave in a worklog row.
\<close>

definition mark_rows :: "('a \<Rightarrow> uuid) \<Rightarrow> ('a \<Rightarrow> 'a) \<Rightarrow> uuid set \<Rightarrow> 'a list \<Rightarrow> 'a list" where
  "mark_rows key upd M rows = map (\<lambda>x. if key x \<in> M then upd x else x) rows"

definition set_remitted_seg :: "uuid \<Rightarrow> TimeSegment \<Rightarrow> TimeSegment" where
  "set_remitted_seg rid s = s\<lparr>seg_settlement_status := REMITTED, seg_remittance_id := Some rid\<rparr>"

definition set_remitted_adj :: "uuid \<Rightarrow> Adjustment \<Rightarrow> Adjustment" where
  "set_remitted_adj rid a = a\<lparr>adj_settlement_status := REMITTED, adj_remittance_id := Some rid\<rparr>"

definition credit_seg :: "uuid \<Rightarrow> (TimeSegment \<times> WorkLog) list \<Rightarrow> WorkLog \<Rightarrow> WorkLog" where
  "credit_seg rid ps w =
     w\<lparr>total_remitted_amount :=
         total_remitted_amount w + sum_list (map seg_price (filter (\<lambda>p. wl_id (snd p) = wl_id w) ps)),
       wl_remittance_id :=
         (if wl_id w \<in> (\<lambda>p. wl_id (snd p)) ` set ps then Some rid else wl_remittance_id w)\<rparr>"

definition credit_adj :: "(Adjustment \<times> WorkLog) list \<Rightarrow> WorkLog \<Rightarrow> WorkLog" where
  "credit_adj qs w =
     w\<lparr>total_remitted_amount :=
         total_remitted_amount w
         + sum_list (map (\<lambda>q. amount (fst q)) (filter (\<lambda>q. wl_id (snd q) = wl_id w) qs))\<rparr>"

text \<open>
  The plan of a run: the due workers in the order of the loop, each with the number of
  the UUID its remittance draws. \<open>settle_worker\<close> is the session after the iteration of
  one planned worker, \<open>credit_all\<close> what the whole plan leaves in a worklog row.
\<close>

fun plan :: "(uuid \<Rightarrow> bool) \<Rightarrow> uuid list \<Rightarrow> nat \<Rightarrow> (uuid \<times> nat) list" where
  "plan due [] d = []"
| "plan due (w # ws) d = (if due w then (w, d) # plan due ws (Suc d) else plan due ws d)"

definition worker_gross_net ::
  "(TimeSegment \<times> WorkLog) list \<Rightarrow> (Adjustment \<times> WorkLog) list \<Rightarrow> uuid \<Rightarrow> decimal \<times> decimal" where
  "worker_gross_net segs adjs w =
     (case worker_totals (worker_get segs w) (worker_get adjs w) of Inl e \<Rightarrow> (0, 0) | Inr gn \<Rightarrow> gn)"

definition settle_worker ::
  "Env \<Rightarrow> GenerateRemittancesRequest \<Rightarrow> date \<times> date \<Rightarrow> (TimeSegment \<times> WorkLog) list \<Rightarrow>
   (Adjustment \<times> WorkLog) list \<Rightarrow> uuid \<times> nat \<Rightarrow> Session \<Rightarrow> Session" where
  "settle_worker env request period segs adjs e s =
     \<lparr>worklogs = map (credit_adj (worker_get adjs (fst e))
                      \<circ> credit_seg (uuid4 env (snd e)) (worker_get segs (fst e))) (worklogs s),
      time_segments = mark_rows seg_id (set_remitted_seg (uuid4 env (snd e)))
                        (seg_id ` fst ` set (worker_get segs (fst e))) (time_segments s),
      adjustments = mark_rows adj_id (set_remitted_adj (uuid4 env (snd e)))
                        (adj_id ` fst ` set (worker_get adjs (fst e))) (adjustments s),
      remittances = remittances s @
        [new_remittance env request period (fst e) (snd e)
           (fst (worker_gross_net segs adjs (fst e))) (snd (worker_gross_net segs adjs (fst e)))]\<rparr>"

definition credit_all ::
  "Env \<Rightarrow> (TimeSegment \<times> WorkLog) list \<Rightarrow> (Adjustment \<times> WorkLog) list \<Rightarrow> (uuid \<times> nat) list \<Rightarrow>
   WorkLog \<Rightarrow> WorkLog" where
  "credit_all env segs adjs pl =
     fold (\<lambda>e. credit_adj (worker_get adjs (fst e))
                 \<circ> credit_seg (uuid4 env (snd e)) (worker_get segs (fst e))) pl"

text \<open>
  Primary keys are unique in each table. The ledger of a worklog in sums: the priced
  amounts of its ACTIVE segments and of its adjustments that have the settlement status
  \<open>st\<close>; for REMITTED and UNREMITTED these are the first two amounts of
  \<^verbatim>\<open>_calculate_worklog_amounts\<close>.
\<close>

definition wf_session :: "Session \<Rightarrow> bool" where
  "wf_session s \<longleftrightarrow>
     distinct (map seg_id (time_segments s)) \<and> distinct (map adj_id (adjustments s))
     \<and> distinct (map wl_id (worklogs s))"

definition seg_due :: "SettlementStatus \<Rightarrow> WorkLog \<Rightarrow> TimeSegment \<Rightarrow> decimal" where
  "seg_due st wl x =
     (if seg_worklog_id x = wl_id wl \<and> seg_status x = ACTIVE \<and> seg_settlement_status x = st
      then seg_price (x, wl) else 0)"

definition adj_due :: "SettlementStatus \<Rightarrow> WorkLog \<Rightarrow> Adjustment \<Rightarrow> decimal" where
  "adj_due st wl a =
     (if adj_worklog_id a = wl_id wl \<and> adj_settlement_status a = st then amount a else 0)"

definition ledger_amount :: "SettlementStatus \<Rightarrow> Session \<Rightarrow> WorkLog \<Rightarrow> decimal" where
  "ledger_amount st s wl =
     sum_list (map (seg_due st wl) (time_segments s)) + sum_list (map (adj_due st wl) (adjustments s))"

text \<open>
  Later calls: \<open>run_calls\<close> is the stored session after a list of calls, each with its
  own environment and request; a call that raises stores nothing. \<open>step_ok s s'\<close> is
  what every call keeps: the keys, every REMITTED unit as it is, and for each worklog the
  difference between its running total and what its ledger shows remitted.
\<close>

fun run_calls :: "Session \<Rightarrow> (Env \<times> GenerateRemittancesRequest) list \<Rightarrow> Session" where
  "run_calls s [] = s"
| "run_calls s (c # cs) =
     run_calls (case generate_remittances (fst c) s (snd c) of Inl e \<Rightarrow> s | Inr (s', r) \<Rightarrow> s') cs"

definition step_ok :: "Session \<Rightarrow> Session \<Rightarrow> bool" where
  "step_ok s s' \<longleftrightarrow>
     list_all2 (\<lambda>x x'. seg_id x' = seg_id x \<and> (seg_settlement_status x = REMITTED \<longrightarrow> x' = x))
       (time_segments s) (time_segments s')
     \<and> list_all2 (\<lambda>x x'. adj_id x' = adj_id x \<and> (adj_settlement_status x = REMITTED \<longrightarrow> x' = x))
         (adjustments s) (adjustments s')
     \<and> list_all2 (\<lambda>w w'. wl_id w' = wl_id w \<and> hourly_rate w' = hourly_rate w
                    \<and> worker_id w' = worker_id w
                    \<and> total_remitted_amount w' - ledger_amount REMITTED s' w'
                        = total_remitted_amount w - ledger_amount REMITTED s w)
         (worklogs s) (worklogs s')"




definition unit_price :: "Session \<Rightarrow> TimeSegment \<Rightarrow> decimal" where
  "unit_price s x =
     (case get_worklog s (seg_worklog_id x) of None \<Rightarrow> 0 | Some wl \<Rightarrow> seg_price (x, wl))"

definition seg_settled :: "Session \<Rightarrow> uuid \<Rightarrow> TimeSegment \<Rightarrow> decimal" where
  "seg_settled s r x =
     (if seg_settlement_status x = REMITTED \<and> seg_remittance_id x = Some r
      then unit_price s x else 0)"

definition adj_settled :: "uuid \<Rightarrow> Adjustment \<Rightarrow> decimal" where
  "adj_settled r a =
     (if adj_settlement_status a = REMITTED \<and> adj_remittance_id a = Some r then amount a else 0)"

definition settled_sum :: "Session \<Rightarrow> uuid \<Rightarrow> decimal" where
  "settled_sum s r =
     sum_list (map (seg_settled s r) (time_segments s)) + sum_list (map (adj_settled r) (adjustments s))"

text \<open>
  Modelled from the spec: the insertion of a new Adjustment row, which no function under
  \<^verbatim>\<open>worklog/\<close> performs. The spec has an adjustment start unpaid; the columns of
  \<^verbatim>\<open>models.py\<close> default to \<^verbatim>\<open>UNREMITTED\<close> and to no remittance.
\<close>

definition add_adjustment :: "Adjustment \<Rightarrow> Session \<Rightarrow> Session" where
  "add_adjustment adj s =
     s\<lparr>adjustments := adjustments s @ [adj\<lparr>adj_settlement_status := UNREMITTED, adj_remittance_id := None\<rparr>]\<rparr>"

section \<open>Concrete sessions\<close>

text \<open>Inputs on which the operations are evaluated below.\<close>

definition env0 :: Env where
  "env0 = \<lparr>today = \<lparr>d_year = 2026, d_month = 2, d_day = 14\<rparr>, now = 0, uuid4 = (\<lambda>n. 100 + n)\<rparr>"

definition request0 :: GenerateRemittancesRequest where
  "request0 =
     \<lparr>req_period_start = None, req_period_end = None, dry_run = False, payout_status = None\<rparr>"

definition seg0 :: TimeSegment where
  "seg0 =
     \<lparr>seg_id = 1, seg_worklog_id = 1, start_time = 0, end_time = 5400000000,
      seg_status = ACTIVE, seg_settlement_status = UNREMITTED, seg_remittance_id = None\<rparr>"

definition wl0 :: WorkLog where
  "wl0 =
     \<lparr>wl_id = 1, task_id = 1, worker_id = 7, hourly_rate = 20, total_remitted_amount = 0,
      wl_remittance_id = None\<rparr>"

definition adj0 :: Adjustment where
  "adj0 =
     \<lparr>adj_id = 1, adj_worklog_id = 1, amount = 10, reason = ''bonus'', adj_type = BONUS,
      adj_settlement_status = UNREMITTED, adj_remittance_id = None\<rparr>"


definition bonus_session :: Session where
  "bonus_session =
     \<lparr>worklogs = [wl0], time_segments = [], adjustments = [adj0], remittances = []\<rparr>"

definition demo_session :: Session where
  "demo_session =
     \<lparr>worklogs = [wl0, wl0\<lparr>wl_id := 2, worker_id := 8, hourly_rate := 18\<rparr>],
      time_segments = [seg0, seg0\<lparr>seg_id := 2, seg_worklog_id := 2, end_time := 7000000\<rparr>],
      adjustments = [adj0, adj0\<lparr>adj_id := 2, adj_worklog_id := 2, amount := - 5, reason := ''late'',
                            adj_type := DEDUCTION\<rparr>],
      remittances = []\<rparr>"

definition succeeds :: "error + 'a \<Rightarrow> bool" where
  "succeeds r = (case r of Inl e \<Rightarrow> False | Inr x \<Rightarrow> True)"

definition paid_session :: Session where
  "paid_session =
     \<lparr>worklogs = [wl0\<lparr>total_remitted_amount := 10, wl_remittance_id := Some 50\<rparr>],
      time_segments = [],
      adjustments = [adj0\<lparr>adj_settlement_status := REMITTED, adj_remittance_id := Some 50\<rparr>],
      remittances = []\<rparr>"

definition deduction0 :: Adjustment where
  "deduction0 =
     \<lparr>adj_id = 2, adj_worklog_id = 1, amount = - 3, reason = ''quality'', adj_type = DEDUCTION,
      adj_settlement_status = UNREMITTED, adj_remittance_id = None\<rparr>"

definition env1 :: Env where
  "env1 = \<lparr>today = \<lparr>d_year = 2026, d_month = 3, d_day = 2\<rparr>, now = 1, uuid4 = (\<lambda>n. 200 + n)\<rparr>"

definition demo_paid :: Session where
  "demo_paid =
     \<lparr>worklogs =
        [\<lparr>wl_id = 1, task_id = 1, worker_id = 7, hourly_rate = 20, total_remitted_amount = 40,
          wl_remittance_id = Some 100\<rparr>,
         \<lparr>wl_id = 2, task_id = 1, worker_id = 8, hourly_rate = 18,
          total_remitted_amount = - (497 / 100), wl_remittance_id = Some 101\<rparr>],
      time_segments =
        [\<lparr>seg_id = 1, seg_worklog_id = 1, start_time = 0, end_time = 5400000000,
          seg_status = ACTIVE, seg_settlement_status = REMITTED, seg_remittance_id = Some 100\<rparr>,
         \<lparr>seg_id = 2, seg_worklog_id = 2, start_time = 0, end_time = 7000000,
          seg_status = ACTIVE, seg_settlement_status = REMITTED, seg_remittance_id = Some 101\<rparr>],
      adjustments =
        [\<lparr>adj_id = 1, adj_worklog_id = 1, amount = 10, reason = ''bonus'', adj_type = BONUS,
          adj_settlement_status = REMITTED, adj_remittance_id = Some 100\<rparr>,
         \<lparr>adj_id = 2, adj_worklog_id = 2, amount = - 5, reason = ''late'', adj_type = DEDUCTION,
          adj_settlement_status = REMITTED, adj_remittance_id = Some 101\<rparr>],
      remittances =
        [\<lparr>rem_id = 100, rem_worker_id = 7, gross_amount = 40, net_amount = 40,
          rem_status = COMPLETED, failure_reason = None,
          rem_period_start = (\<lparr>d_year = 2026, d_month = 2, d_day = 1\<rparr>, 0),
          rem_period_end = (\<lparr>d_year = 2026, d_month = 2, d_day = 28\<rparr>, 86399999999),
          processed_at = Some 0\<rparr>,
         \<lparr>rem_id = 101, rem_worker_id = 8, gross_amount = 3 / 100, net_amount = - (497 / 100),
          rem_status = COMPLETED, failure_reason = None,
          rem_period_start = (\<lparr>d_year = 2026, d_month = 2, d_day = 1\<rparr>, 0),
          rem_period_end = (\<lparr>d_year = 2026, d_month = 2, d_day = 28\<rparr>, 86399999999),
          processed_at = Some 0\<rparr>]\<rparr>"

section \<open>Pricing a time segment\<close>








section \<open>The ledger view\<close>








section \<open>The worklog's reference to its remittance\<close>

text \<open>
  C9 at a worklog that has one unremitted adjustment and no segment. The COMPLETED run
  marks the adjustment with the new remittance 100 and adds its amount to the worklog's
  total, and leaves the worklog's own remittance reference empty: only the loop over the
  segments writes it.
\<close>

theorem adjustment_only_worklog_reference:
  "case generate_remittances env0 bonus_session request0 of
     Inl e \<Rightarrow> False
   | Inr (s, r) \<Rightarrow>
       map rem_id (remittances s) = [100]
       \<and> map rem_status (remittances s) = [COMPLETED]
       \<and> map adj_settlement_status (adjustments s) = [REMITTED]
       \<and> map adj_remittance_id (adjustments s) = [Some 100]
       \<and> map total_remitted_amount (worklogs s) = [10]
       \<and> map wl_remittance_id (worklogs s) = [None]"
  by code_simp

section \<open>Rounding and sums\<close>

lemma priced_iff: "priced p \<longleftrightarrow> calculate_segment_amount (fst p) (hourly_rate (snd p)) = Inr (seg_price p)"
  by (auto simp: priced_def seg_price_def split: sum.splits)

lemma round_half_even_mono: "x \<le> y \<Longrightarrow> round_half_even x \<le> round_half_even y"
proof -
  assume xy: "x \<le> y"
  have fx: "\<lfloor>x\<rfloor> \<le> \<lfloor>y\<rfloor>" using xy by (rule floor_mono)
  show ?thesis
  proof (cases "\<lfloor>x\<rfloor> = \<lfloor>y\<rfloor>")
    case True
    then have "x - of_int \<lfloor>x\<rfloor> \<le> y - of_int \<lfloor>y\<rfloor>" using xy by simp
    then show ?thesis using True
      by (auto simp: round_half_even_def Let_def)
  next
    case False
    with fx have "\<lfloor>x\<rfloor> + 1 \<le> \<lfloor>y\<rfloor>" by simp
    moreover have "round_half_even x \<le> \<lfloor>x\<rfloor> + 1" by (simp add: round_half_even_def Let_def)
    moreover have "\<lfloor>y\<rfloor> \<le> round_half_even y" by (simp add: round_half_even_def Let_def)
    ultimately show ?thesis by linarith
  qed
qed

lemma round_half_even_of_int [simp]: "round_half_even (of_int n) = n"
  by (simp add: round_half_even_def)

lemma round_half_even_0 [simp]: "round_half_even 0 = 0"
  using round_half_even_of_int[of 0] by simp


lemma quantize_mono: "x \<le> y \<Longrightarrow> quantize x \<le> quantize y"
  by (simp add: quantize_def round_half_even_mono divide_right_mono)

lemma quantize_0 [simp]: "quantize 0 = 0"
  by (simp add: quantize_def)

lemma quantize_nonneg: "0 \<le> x \<Longrightarrow> 0 \<le> quantize x"
  using quantize_mono[of 0 x] by simp


lemma sum_segments_closed:
  "sum_segments ps (g, n) = Inr (g', n') \<Longrightarrow>
   (\<forall>p\<in>set ps. priced p)
   \<and> g' = g + sum_list (map (\<lambda>p. max 0 (seg_price p)) ps)
   \<and> n' = n + sum_list (map seg_price ps)"
proof (induction ps arbitrary: g n)
  case Nil
  then show ?case by simp
next
  case (Cons p ps)
  obtain seg wl where p: "p = (seg, wl)" by (cases p)
  from Cons.prems p obtain a where a: "calculate_segment_amount seg (hourly_rate wl) = Inr a"
    by (auto split: sum.splits)
  then have sp: "seg_price p = a" "priced p" by (simp_all add: seg_price_def priced_def p)
  from Cons.prems p a have "sum_segments ps (if 0 < a then g + a else g, n + a) = Inr (g', n')"
    by simp
  from Cons.IH[OF this] show ?case using sp by (auto simp: max_def)
qed

lemma sum_segments_priced:
  "\<forall>p\<in>set ps. priced p \<Longrightarrow>
   sum_segments ps (g, n) = Inr (g + sum_list (map (\<lambda>p. max 0 (seg_price p)) ps), n + sum_list (map seg_price ps))"
proof (induction ps arbitrary: g n)
  case Nil
  then show ?case by simp
next
  case (Cons p ps)
  obtain seg wl where p: "p = (seg, wl)" by (cases p)
  from Cons.prems have "priced p" by simp
  then have a: "calculate_segment_amount seg (hourly_rate wl) = Inr (seg_price p)"
    by (simp add: priced_iff p)
  show ?case using Cons.IH Cons.prems a p by (auto simp: max_def)
qed

lemma sum_adjustments_closed:
  "sum_adjustments qs (g, n) =
     (g + sum_list (map (\<lambda>q. max 0 (amount (fst q))) qs), n + sum_list (map (\<lambda>q. amount (fst q)) qs))"
proof (induction qs arbitrary: g n)
  case Nil
  then show ?case by simp
next
  case (Cons q qs)
  obtain adj wl where q: "q = (adj, wl)" by (cases q)
  show ?case using Cons.IH q by (auto simp: max_def)
qed

lemma sum_list_max0_nonneg: "0 \<le> sum_list (map (\<lambda>p. max 0 (f p)) ps)" for f :: "'a \<Rightarrow> rat"
  by (induction ps) auto

lemma sum_list_le_max0: "sum_list (map f ps) \<le> sum_list (map (\<lambda>p. max 0 (f p)) ps)" for f :: "'a \<Rightarrow> rat"
  by (induction ps) auto

lemma sums_zero_all_zero:
  fixes f :: "'a \<Rightarrow> rat"
  assumes "sum_list (map (\<lambda>p. max 0 (f p)) ps) + G = 0" "sum_list (map f ps) + N = 0" "0 \<le> G" "N \<le> G"
  shows "(\<forall>p\<in>set ps. f p = 0) \<and> G = 0 \<and> N = 0"
  using assms
proof (induction ps arbitrary: G N)
  case Nil
  then show ?case by simp
next
  case (Cons p ps)
  have "sum_list (map (\<lambda>p. max 0 (f p)) ps) + (max 0 (f p) + G) = 0"
    "sum_list (map f ps) + (f p + N) = 0" "0 \<le> max 0 (f p) + G" "f p + N \<le> max 0 (f p) + G"
    using Cons.prems by (auto simp: algebra_simps max_def)
  from Cons.IH[OF this] have *: "\<forall>p\<in>set ps. f p = 0" "max 0 (f p) + G = 0" "f p + N = 0" by auto
  with Cons.prems(3,4) have "f p = 0 \<and> G = 0 \<and> N = 0" by (auto simp: max_def split: if_splits)
  with * show ?case by simp
qed

lemma worker_totals_closed:
  "worker_totals ps qs = Inr (g, n) \<Longrightarrow>
   (\<forall>p\<in>set ps. priced p)
   \<and> g = sum_list (map (\<lambda>p. max 0 (seg_price p)) ps) + sum_list (map (\<lambda>q. max 0 (amount (fst q))) qs)
   \<and> n = sum_list (map seg_price ps) + sum_list (map (\<lambda>q. amount (fst q)) qs)"
  by (auto simp: worker_totals_def sum_adjustments_closed split: sum.splits dest!: sum_segments_closed)

lemma worker_totals_priced:
  "\<forall>p\<in>set ps. priced p \<Longrightarrow>
   worker_totals ps qs = Inr (sum_list (map (\<lambda>p. max 0 (seg_price p)) ps) + sum_list (map (\<lambda>q. max 0 (amount (fst q))) qs),
     sum_list (map seg_price ps) + sum_list (map (\<lambda>q. amount (fst q)) qs))"
  by (simp add: worker_totals_def sum_segments_priced sum_adjustments_closed)

lemma worker_totals_bounds:
  assumes "worker_totals ps qs = Inr (g, n)"
  shows "0 \<le> g \<and> n \<le> g"
proof -
  from worker_totals_closed[OF assms] have
    g: "g = sum_list (map (\<lambda>p. max 0 (seg_price p)) ps) + sum_list (map (\<lambda>q. max 0 (amount (fst q))) qs)"
    and n: "n = sum_list (map seg_price ps) + sum_list (map (\<lambda>q. amount (fst q)) qs)" by auto
  show ?thesis unfolding g n
    using sum_list_max0_nonneg[of seg_price ps] sum_list_max0_nonneg[of "\<lambda>q. amount (fst q)" qs]
      sum_list_le_max0[of seg_price ps] sum_list_le_max0[of "\<lambda>q. amount (fst q)" qs]
    by linarith
qed

lemma worker_totals_zero:
  assumes "worker_totals ps qs = Inr (0, 0)"
  shows "(\<forall>p\<in>set ps. seg_price p = 0) \<and> (\<forall>q\<in>set qs. amount (fst q) = 0)"
proof -
  from worker_totals_closed[OF assms] have
    g: "sum_list (map (\<lambda>p. max 0 (seg_price p)) ps) + sum_list (map (\<lambda>q. max 0 (amount (fst q))) qs) = 0"
    and n: "sum_list (map seg_price ps) + sum_list (map (\<lambda>q. amount (fst q)) qs) = 0" by auto
  have 1: "(\<forall>p\<in>set ps. seg_price p = 0) \<and> sum_list (map (\<lambda>q. max 0 (amount (fst q))) qs) = 0
      \<and> sum_list (map (\<lambda>q. amount (fst q)) qs) = 0"
    by (rule sums_zero_all_zero[OF g n sum_list_max0_nonneg sum_list_le_max0])
  then have "sum_list (map (\<lambda>q. max 0 (amount (fst q))) qs) + 0 = 0" "sum_list (map (\<lambda>q. amount (fst q)) qs) + 0 = 0"
    by auto
  from sums_zero_all_zero[OF this] 1 show ?thesis by auto
qed

section \<open>The marking loops and one iteration\<close>

lemma calculate_set_remitted [simp]:
  "calculate_segment_amount (seg\<lparr>seg_settlement_status := st, seg_remittance_id := r\<rparr>) rate
     = calculate_segment_amount seg rate"
  by (simp add: calculate_segment_amount_def Let_def)

lemma mark_segments_other:
  "mark_segments rid ps s = Inr s' \<Longrightarrow>
   adjustments s' = adjustments s \<and> remittances s' = remittances s"
proof (induction ps arbitrary: s)
  case Nil
  then show ?case by simp
next
  case (Cons p ps)
  obtain seg wl where p: "p = (seg, wl)" by (cases p)
  from Cons.prems p obtain a where a: "calculate_segment_amount seg (hourly_rate wl) = Inr a"
    by (auto simp: Let_def split: sum.splits)
  from Cons.prems p a Cons.IH show ?case
    by (fastforce simp: Let_def update_worklog_def update_segment_def)
qed

lemma mark_adjustments_other:
  "time_segments (mark_adjustments rid qs s) = time_segments s
   \<and> remittances (mark_adjustments rid qs s) = remittances s"
proof (induction qs arbitrary: s)
  case Nil
  then show ?case by simp
next
  case (Cons q qs)
  obtain adj wl where q: "q = (adj, wl)" by (cases q)
  show ?case using Cons.IH q
    by (simp add: Let_def update_worklog_def update_adjustment_def)
qed

lemma mark_segments_succeeds:
  "\<forall>p\<in>set ps. priced p \<Longrightarrow> \<exists>s'. mark_segments rid ps s = Inr s'"
proof (induction ps arbitrary: s)
  case Nil
  then show ?case by simp
next
  case (Cons p ps)
  obtain seg wl where p: "p = (seg, wl)" by (cases p)
  from Cons.prems have "priced p" by simp
  then have a: "calculate_segment_amount seg (hourly_rate wl) = Inr (seg_price p)"
    by (simp add: priced_iff p)
  show ?case using Cons.IH Cons.prems a p by (simp add: Let_def)
qed

lemma mark_remitted_succeeds:
  "\<forall>p\<in>set ps. priced p \<Longrightarrow> \<exists>s'. mark_remitted rid ps qs s = Inr s'"
  using mark_segments_succeeds[of ps rid s] by (auto simp: mark_remitted_def)

lemma mark_remitted_remittances:
  "mark_remitted rid ps qs s = Inr s' \<Longrightarrow> remittances s' = remittances s"
  by (auto simp: mark_remitted_def mark_adjustments_other split: sum.splits dest: mark_segments_other)

text \<open>The cases of one iteration.\<close>

lemma process_worker_cases:
  assumes "process_worker env request period segs adjs w b = Inr b'"
  obtains
    (skip) "worker_totals (worker_get segs w) (worker_get adjs w) = Inr (0, 0)" "b' = b"
  | (preview) g n where "worker_totals (worker_get segs w) (worker_get adjs w) = Inr (g, n)"
      "\<not> (g = 0 \<and> n = 0)" "dry_run request"
      "b' = append_created
              (remittance_public (uuid4 env (uuids_drawn b + 1))
                 (new_remittance env request period w (uuids_drawn b) g n)
                 (length (remdups (map (\<lambda>p. wl_id (snd p)) (worker_get segs w)
                                   @ map (\<lambda>p. wl_id (snd p)) (worker_get adjs w)))) period)
              g n (b\<lparr>uuids_drawn := uuids_drawn b + 2\<rparr>)"
  | (failed) g n where "worker_totals (worker_get segs w) (worker_get adjs w) = Inr (g, n)"
      "\<not> (g = 0 \<and> n = 0)" "\<not> dry_run request" "outcome_status request \<noteq> COMPLETED"
      "b' = append_created
              (remittance_public (uuid4 env (uuids_drawn b))
                 (new_remittance env request period w (uuids_drawn b) g n)
                 (length (remdups (map (\<lambda>p. wl_id (snd p)) (worker_get segs w)
                                   @ map (\<lambda>p. wl_id (snd p)) (worker_get adjs w)))) period)
              g n (b\<lparr>b_session := persist (new_remittance env request period w (uuids_drawn b) g n) (b_session b),
                     uuids_drawn := uuids_drawn b + 1\<rparr>)"
  | (completed) g n s3 where "worker_totals (worker_get segs w) (worker_get adjs w) = Inr (g, n)"
      "\<not> (g = 0 \<and> n = 0)" "\<not> dry_run request" "outcome_status request = COMPLETED"
      "mark_remitted (uuid4 env (uuids_drawn b)) (worker_get segs w) (worker_get adjs w)
         (persist (new_remittance env request period w (uuids_drawn b) g n) (b_session b)) = Inr s3"
      "b' = append_created
              (remittance_public (uuid4 env (uuids_drawn b))
                 (new_remittance env request period w (uuids_drawn b) g n)
                 (length (remdups (map (\<lambda>p. wl_id (snd p)) (worker_get segs w)
                                   @ map (\<lambda>p. wl_id (snd p)) (worker_get adjs w)))) period)
              g n (b\<lparr>b_session := s3, uuids_drawn := uuids_drawn b + 1\<rparr>)"
proof -
  from assms obtain g n where t: "worker_totals (worker_get segs w) (worker_get adjs w) = Inr (g, n)"
    by (auto simp: process_worker_def Let_def split: sum.splits)
  have rid: "rem_id (new_remittance env request period w d g n) = uuid4 env d"
    and st: "rem_status (new_remittance env request period w d g n) = outcome_status request" for d
    by (simp_all add: new_remittance_def Let_def)
  show thesis
  proof (cases "g = 0 \<and> n = 0")
    case True
    with assms t show ?thesis by (intro skip) (auto simp: process_worker_def Let_def)
  next
    case nz: False
    show ?thesis
    proof (cases "dry_run request")
      case True
      with assms t nz show ?thesis
        by (intro preview[of g n]) (auto simp: process_worker_def Let_def)
    next
      case real: False
      show ?thesis
      proof (cases "outcome_status request = COMPLETED")
        case True
        with assms t nz real obtain s3 where
          "mark_remitted (uuid4 env (uuids_drawn b)) (worker_get segs w) (worker_get adjs w)
             (persist (new_remittance env request period w (uuids_drawn b) g n) (b_session b)) = Inr s3"
          "b' = append_created
              (remittance_public (uuid4 env (uuids_drawn b))
                 (new_remittance env request period w (uuids_drawn b) g n)
                 (length (remdups (map (\<lambda>p. wl_id (snd p)) (worker_get segs w)
                                   @ map (\<lambda>p. wl_id (snd p)) (worker_get adjs w)))) period)
              g n (b\<lparr>b_session := s3, uuids_drawn := uuids_drawn b + 1\<rparr>)"
          by (auto simp: process_worker_def Let_def rid st split: sum.splits)
        with t nz real True show ?thesis by (intro completed[of g n s3])
      next
        case False
        with assms t nz real show ?thesis
          by (intro failed[of g n]) (auto simp: process_worker_def Let_def rid st)
      qed
    qed
  qed
qed

section \<open>Gross and net\<close>

lemma new_remittance_fields [simp]:
  "rem_id (new_remittance env request period w d g n) = uuid4 env d"
  "rem_worker_id (new_remittance env request period w d g n) = w"
  "gross_amount (new_remittance env request period w d g n) = quantize g"
  "net_amount (new_remittance env request period w d g n) = quantize n"
  "rem_status (new_remittance env request period w d g n) = outcome_status request"
  by (simp_all add: new_remittance_def Let_def)

lemma new_remittance_reason:
  "failure_reason (new_remittance env request period w d g n) =
     (if outcome_status request = FAILED \<or> outcome_status request = CANCELLED
      then Some (''Payout marked as '' @ status_value (outcome_status request) @ '' by request'')
      else None)"
  by (simp add: new_remittance_def Let_def)

lemma remittance_public_fields [simp]:
  "rp_id (remittance_public pid R k period) = pid"
  "rp_worker_id (remittance_public pid R k period) = rem_worker_id R"
  "rp_gross_amount (remittance_public pid R k period) = gross_amount R"
  "rp_net_amount (remittance_public pid R k period) = net_amount R"
  "rp_status (remittance_public pid R k period) = rem_status R"
  "worklogs_count (remittance_public pid R k period) = k"
  by (simp_all add: remittance_public_def)

lemma append_created_fields [simp]:
  "b_remittances (append_created r g n b) = b_remittances b @ [r]"
  "total_gross (append_created r g n b) = total_gross b + g"
  "total_net (append_created r g n b) = total_net b + n"
  "b_session (append_created r g n b) = b_session b"
  "uuids_drawn (append_created r g n b) = uuids_drawn b"
  by (simp_all add: append_created_def)

lemma persist_fields [simp]:
  "remittances (persist R s) = remittances s @ [R]"
  "time_segments (persist R s) = time_segments s"
  "adjustments (persist R s) = adjustments s"
  "worklogs (persist R s) = worklogs s"
  by (simp_all add: persist_def)

lemma process_worker_amounts:
  assumes "process_worker env request period segs adjs w b = Inr b'" "amounts_ok s0 b"
  shows "amounts_ok s0 b'"
  using assms(1)
proof (cases rule: process_worker_cases)
  case skip
  with assms(2) show ?thesis by simp
next
  case (preview g n)
  from worker_totals_bounds[OF preview(1)] have "0 \<le> g" "n \<le> g" by auto
  then have "0 \<le> quantize g" "quantize n \<le> quantize g"
    by (simp_all add: quantize_nonneg quantize_mono)
  with assms(2) \<open>0 \<le> g\<close> \<open>n \<le> g\<close> show ?thesis
    unfolding preview(4) amounts_ok_def by auto
next
  case (failed g n)
  from worker_totals_bounds[OF failed(1)] have "0 \<le> g" "n \<le> g" by auto
  then have "0 \<le> quantize g" "quantize n \<le> quantize g"
    by (simp_all add: quantize_nonneg quantize_mono)
  with assms(2) \<open>0 \<le> g\<close> \<open>n \<le> g\<close> show ?thesis
    unfolding failed(5) amounts_ok_def by auto
next
  case (completed g n s3)
  from worker_totals_bounds[OF completed(1)] have "0 \<le> g" "n \<le> g" by auto
  then have q: "0 \<le> quantize g" "quantize n \<le> quantize g"
    by (simp_all add: quantize_nonneg quantize_mono)
  have "remittances s3 = remittances (b_session b) @ [new_remittance env request period w (uuids_drawn b) g n]"
    using mark_remitted_remittances[OF completed(5)] by simp
  with assms(2) \<open>0 \<le> g\<close> \<open>n \<le> g\<close> q show ?thesis
    unfolding completed(6) amounts_ok_def by auto
qed

lemma process_workers_amounts:
  "process_workers env request period segs adjs ws b = Inr b' \<Longrightarrow> amounts_ok s0 b \<Longrightarrow>
   amounts_ok s0 b'"
proof (induction ws arbitrary: b)
  case Nil
  then show ?case by simp
next
  case (Cons w ws)
  from Cons.prems(1) obtain b1 where
    1: "process_worker env request period segs adjs w b = Inr b1"
    and 2: "process_workers env request period segs adjs ws b1 = Inr b'"
    by (auto split: sum.splits)
  from Cons.IH[OF 2 process_worker_amounts[OF 1 Cons.prems(2)]] show ?case .
qed

lemma generate_cases:
  assumes "generate_remittances env session request = Inr (s', resp)"
  obtains period b where
    "resolve_period (today env) (req_period_start request) (req_period_end request) = Inr period"
    "run_batch env session request period = Inr b"
    "s' = (if dry_run request then session else b_session b)"
    "resp = \<lparr>remittances_created = length (b_remittances b),
             total_gross_amount = quantize (total_gross b),
             total_net_amount = quantize (total_net b),
             resp_remittances = b_remittances b,
             resp_dry_run = dry_run request,
             resp_period_start = fst period,
             resp_period_end = snd period\<rparr>"
  using assms by (auto simp: generate_remittances_def split: sum.splits)

text \<open>
  C10. For every remittance a call produces, whatever the outcome status and whether or
  not it is a dry run, the gross amount is at least 0 and the net amount is at most the
  gross amount: in each entry of the response, in each remittance row the call adds to
  the session, and in the two totals of the response.
\<close>

theorem remittance_amounts_ordered:
  assumes "generate_remittances env session request = Inr (s', resp)"
  shows "(\<forall>r\<in>set (resp_remittances resp). 0 \<le> rp_gross_amount r \<and> rp_net_amount r \<le> rp_gross_amount r)
         \<and> (\<forall>R\<in>set (remittances s').
               R \<in> set (remittances session) \<or> (0 \<le> gross_amount R \<and> net_amount R \<le> gross_amount R))
         \<and> 0 \<le> total_gross_amount resp \<and> total_net_amount resp \<le> total_gross_amount resp"
  using assms
proof (cases rule: generate_cases)
  case (1 period b)
  have "amounts_ok session \<lparr>b_session = session, b_remittances = [], total_gross = 0, total_net = 0, uuids_drawn = 0\<rparr>"
    by (simp add: amounts_ok_def)
  with 1(2) have ok: "amounts_ok session b"
    unfolding run_batch_def Let_def by (rule process_workers_amounts)
  then have "0 \<le> quantize (total_gross b)" "quantize (total_net b) \<le> quantize (total_gross b)"
    by (simp_all add: amounts_ok_def quantize_nonneg quantize_mono)
  with ok show ?thesis
    unfolding 1(3,4) amounts_ok_def by auto
qed

lemma succeeds_Inr: "succeeds r \<Longrightarrow> \<exists>x. r = Inr x"
  by (cases r) (simp_all add: succeeds_def)

lemma demo_run:
  "case generate_remittances env0 demo_session request0 of
     Inl e \<Rightarrow> False
   | Inr (s, r) \<Rightarrow>
       remittances_created r = 2
       \<and> map rp_gross_amount (resp_remittances r) = [40, 3 / 100]
       \<and> map rp_net_amount (resp_remittances r) = [40, - (497 / 100)]
       \<and> map rem_id (remittances s) = [100, 101]"
  by code_simp

theorem remittance_amounts_ordered_witness:
  "\<exists>s' resp. generate_remittances env0 demo_session request0 = Inr (s', resp)
      \<and> map rp_net_amount (resp_remittances resp) = [40, - (497 / 100)]
      \<and> (\<forall>r\<in>set (resp_remittances resp). 0 \<le> rp_gross_amount r \<and> rp_net_amount r \<le> rp_gross_amount r)
      \<and> 0 \<le> total_gross_amount resp \<and> total_net_amount resp \<le> total_gross_amount resp"
proof -
  from demo_run obtain s' resp where
    g: "generate_remittances env0 demo_session request0 = Inr (s', resp)"
    and n: "map rp_net_amount (resp_remittances resp) = [40, - (497 / 100)]"
    by (auto split: sum.splits)
  from remittance_amounts_ordered[OF g] g n show ?thesis
    by (intro exI[of _ s'] exI[of _ resp]) simp
qed

section \<open>Outcomes other than COMPLETED\<close>

lemma process_worker_err:
  "worker_totals (worker_get segs w) (worker_get adjs w) = Inl e \<Longrightarrow>
   process_worker env request period segs adjs w b = Inl e"
  by (simp add: process_worker_def Let_def)

lemma process_worker_skip:
  "worker_totals (worker_get segs w) (worker_get adjs w) = Inr (0, 0) \<Longrightarrow>
   process_worker env request period segs adjs w b = Inr b"
  by (simp add: process_worker_def Let_def)

lemma process_worker_Inl:
  assumes "process_worker env request period segs adjs w b = Inl e"
  shows "worker_totals (worker_get segs w) (worker_get adjs w) = Inl e"
proof (cases "worker_totals (worker_get segs w) (worker_get adjs w)")
  case (Inl e')
  with assms show ?thesis by (simp add: process_worker_def Let_def)
next
  case (Inr gn)
  obtain g n where gn: "gn = (g, n)" by (cases gn)
  from worker_totals_closed[OF Inr[unfolded gn]] have "\<forall>p\<in>set (worker_get segs w). priced p" by simp
  from mark_remitted_succeeds[OF this] obtain s' where
    "mark_remitted (uuid4 env (uuids_drawn b)) (worker_get segs w) (worker_get adjs w)
       (persist (new_remittance env request period w (uuids_drawn b) g n) (b_session b)) = Inr s'"
    by blast
  with assms Inr gn show ?thesis
    by (auto simp: process_worker_def Let_def split: if_splits)
qed

text \<open>A run whose outcome is not COMPLETED only appends remittances.\<close>

lemma process_workers_not_completed:
  assumes "process_workers env request period segs adjs ws b = Inr b'"
    and "\<not> dry_run request" and "outcome_status request \<noteq> COMPLETED"
  shows "\<exists>news. b_session b' = (b_session b)\<lparr>remittances := remittances (b_session b) @ news\<rparr>
           \<and> map rem_worker_id news = filter (is_due segs adjs) ws
           \<and> (\<forall>R\<in>set news. rem_status R = outcome_status request
                 \<and> rem_id R \<in> range (uuid4 env)
                 \<and> failure_reason R =
                     (if outcome_status request = FAILED \<or> outcome_status request = CANCELLED
                      then Some (''Payout marked as '' @ status_value (outcome_status request) @ '' by request'')
                      else None))"
  using assms(1)
proof (induction ws arbitrary: b)
  case Nil
  then show ?case by (intro exI[of _ "[]"]) simp
next
  case (Cons w ws)
  from Cons.prems obtain b1 where
    1: "process_worker env request period segs adjs w b = Inr b1"
    and 2: "process_workers env request period segs adjs ws b1 = Inr b'"
    by (auto split: sum.splits)
  from Cons.IH[OF 2] obtain news where
    n1: "b_session b' = (b_session b1)\<lparr>remittances := remittances (b_session b1) @ news\<rparr>"
    and n2: "map rem_worker_id news = filter (is_due segs adjs) ws"
    and n3: "\<forall>R\<in>set news. rem_status R = outcome_status request
                 \<and> rem_id R \<in> range (uuid4 env)
                 \<and> failure_reason R =
                     (if outcome_status request = FAILED \<or> outcome_status request = CANCELLED
                      then Some (''Payout marked as '' @ status_value (outcome_status request) @ '' by request'')
                      else None)"
    by blast
  from 1 show ?case
  proof (cases rule: process_worker_cases)
    case skip
    then have "\<not> is_due segs adjs w" by (simp add: is_due_def)
    with n1 n2 n3 skip show ?thesis by (intro exI[of _ news]) simp
  next
    case (preview g n)
    with assms(2) show ?thesis by simp
  next
    case (failed g n)
    let ?R = "new_remittance env request period w (uuids_drawn b) g n"
    from failed have due: "is_due segs adjs w" by (auto simp: is_due_def)
    have "b_session b' = (b_session b)\<lparr>remittances := remittances (b_session b) @ (?R # news)\<rparr>"
      using n1 unfolding failed(5) by (simp add: persist_def)
    with n2 n3 due show ?thesis
      by (intro exI[of _ "?R # news"]) (simp add: new_remittance_reason)
  next
    case (completed g n s3)
    with assms(3) show ?thesis by simp
  qed
qed

text \<open>
  C3. A call that is not a dry run and whose payout status is overridden by a status
  other than COMPLETED leaves every time segment, adjustment and worklog as it was, so
  every selected unit stays UNREMITTED and unlinked and no total or reference of a
  worklog moves. It appends one remittance row for each worker that is due (gross and
  net not both 0, so in particular each worker whose units do not total 0), with the
  overriding status; for FAILED the row carries the synthesized failure reason.
\<close>

theorem failed_outcome_leaves_units:
  assumes "generate_remittances env session request = Inr (s', resp)"
    and "\<not> dry_run request" and "payout_status request = Some st" and "st \<noteq> COMPLETED"
  shows "time_segments s' = time_segments session
         \<and> adjustments s' = adjustments session
         \<and> worklogs s' = worklogs session
         \<and> (\<exists>news. remittances s' = remittances session @ news
              \<and> map rem_worker_id news =
                  filter (is_due (pair_worklogs session seg_worklog_id (unremitted_segments session))
                                 (pair_worklogs session adj_worklog_id (unremitted_adjustments session)))
                    (all_worker_ids (pair_worklogs session seg_worklog_id (unremitted_segments session))
                                    (pair_worklogs session adj_worklog_id (unremitted_adjustments session)))
              \<and> (\<forall>R\<in>set news. rem_status R = st
                    \<and> (st = FAILED \<longrightarrow> failure_reason R = Some ''Payout marked as FAILED by request'')))"
  using assms(1)
proof (cases rule: generate_cases)
  case (1 period b)
  have out: "outcome_status request = st" using assms(3) by (simp add: outcome_status_def)
  from process_workers_not_completed[OF 1(2)[unfolded run_batch_def Let_def] assms(2)] out assms(4)
  obtain news where
    n1: "b_session b = session\<lparr>remittances := remittances session @ news\<rparr>"
    and n2: "map rem_worker_id news =
                  filter (is_due (pair_worklogs session seg_worklog_id (unremitted_segments session))
                                 (pair_worklogs session adj_worklog_id (unremitted_adjustments session)))
                    (all_worker_ids (pair_worklogs session seg_worklog_id (unremitted_segments session))
                                    (pair_worklogs session adj_worklog_id (unremitted_adjustments session)))"
    and n3: "\<forall>R\<in>set news. rem_status R = st
                 \<and> rem_id R \<in> range (uuid4 env)
                 \<and> failure_reason R =
                     (if st = FAILED \<or> st = CANCELLED
                      then Some (''Payout marked as '' @ status_value st @ '' by request'')
                      else None)"
    by auto
  have "\<forall>R\<in>set news. rem_status R = st
          \<and> (st = FAILED \<longrightarrow> failure_reason R = Some ''Payout marked as FAILED by request'')"
    using n3 by (auto simp: status_value_def)
  with n1 n2 assms(2) show ?thesis
    unfolding 1(3) by (intro conjI exI[of _ news]) simp_all
qed

lemma demo_failed_run:
  "case generate_remittances env0 demo_session (request0\<lparr>payout_status := Some FAILED\<rparr>) of
     Inl e \<Rightarrow> False
   | Inr (s, r) \<Rightarrow>
       map rem_worker_id (remittances s) = [7, 8]
       \<and> map rem_status (remittances s) = [FAILED, FAILED]"
  by code_simp

theorem failed_outcome_leaves_units_witness:
  "\<exists>s' resp. generate_remittances env0 demo_session (request0\<lparr>payout_status := Some FAILED\<rparr>)
        = Inr (s', resp)
      \<and> map rem_status (remittances s') = [FAILED, FAILED]
      \<and> time_segments s' = time_segments demo_session
      \<and> adjustments s' = adjustments demo_session
      \<and> worklogs s' = worklogs demo_session"
proof -
  from demo_failed_run obtain s' resp where
    g: "generate_remittances env0 demo_session (request0\<lparr>payout_status := Some FAILED\<rparr>)
          = Inr (s', resp)"
    and st: "map rem_status (remittances s') = [FAILED, FAILED]"
    by (auto split: sum.splits)
  have h: "\<not> dry_run (request0\<lparr>payout_status := Some FAILED\<rparr>)"
    "payout_status (request0\<lparr>payout_status := Some FAILED\<rparr>) = Some FAILED"
    "FAILED \<noteq> COMPLETED"
    by (simp_all add: request0_def)
  from failed_outcome_leaves_units[OF g h] g st show ?thesis
    by (intro exI[of _ s'] exI[of _ resp]) simp
qed

section \<open>Dry runs\<close>

lemma outcome_status_dry_run [simp]:
  "outcome_status (request\<lparr>dry_run := d\<rparr>) = outcome_status request"
  by (simp add: outcome_status_def)

lemma remittance_public_summary:
  "(remittance_public pid (new_remittance env (request\<lparr>dry_run := d\<rparr>) period w k g n) c period)\<lparr>rp_id := 0\<rparr>
   = (remittance_public pid' (new_remittance env (request\<lparr>dry_run := d'\<rparr>) period w k' g n) c period)\<lparr>rp_id := 0\<rparr>"
  by (simp add: remittance_public_def new_remittance_def Let_def)

lemma process_worker_dry_real:
  assumes sim: "same_summaries bd br"
  shows "(\<forall>e. process_worker env (request\<lparr>dry_run := True\<rparr>) period segs adjs w bd = Inl e
              \<longrightarrow> process_worker env (request\<lparr>dry_run := False\<rparr>) period segs adjs w br = Inl e)
         \<and> (\<forall>bd'. process_worker env (request\<lparr>dry_run := True\<rparr>) period segs adjs w bd = Inr bd'
              \<longrightarrow> b_session bd' = b_session bd
                  \<and> (\<exists>br'. process_worker env (request\<lparr>dry_run := False\<rparr>) period segs adjs w br = Inr br'
                        \<and> same_summaries bd' br'))"
proof (cases "worker_totals (worker_get segs w) (worker_get adjs w)")
  case (Inl e)
  then show ?thesis by (simp add: process_worker_err)
next
  case (Inr gn)
  obtain g n where gn: "gn = (g, n)" by (cases gn)
  note t = Inr[unfolded gn]
  show ?thesis
  proof (cases "g = 0 \<and> n = 0")
    case True
    with t sim show ?thesis by (simp add: process_worker_skip)
  next
    case False
    let ?c = "length (remdups (map (\<lambda>p. wl_id (snd p)) (worker_get segs w)
                                   @ map (\<lambda>p. wl_id (snd p)) (worker_get adjs w)))"
    let ?Rd = "new_remittance env (request\<lparr>dry_run := True\<rparr>) period w (uuids_drawn bd) g n"
    let ?Rr = "new_remittance env (request\<lparr>dry_run := False\<rparr>) period w (uuids_drawn br) g n"
    have d: "process_worker env (request\<lparr>dry_run := True\<rparr>) period segs adjs w bd
        = Inr (append_created (remittance_public (uuid4 env (uuids_drawn bd + 1)) ?Rd ?c period) g n
                 (bd\<lparr>uuids_drawn := uuids_drawn bd + 2\<rparr>))"
      using t False by (auto simp: process_worker_def Let_def)
    from worker_totals_closed[OF t] have pr: "\<forall>p\<in>set (worker_get segs w). priced p" by simp
    have "\<exists>s3. (if outcome_status request = COMPLETED
               then mark_remitted (uuid4 env (uuids_drawn br)) (worker_get segs w) (worker_get adjs w)
                      (persist ?Rr (b_session br))
               else Inr (persist ?Rr (b_session br))) = Inr s3"
      using mark_remitted_succeeds[OF pr] by simp
    then obtain s3 where s3: "(if outcome_status request = COMPLETED
               then mark_remitted (uuid4 env (uuids_drawn br)) (worker_get segs w) (worker_get adjs w)
                      (persist ?Rr (b_session br))
               else Inr (persist ?Rr (b_session br))) = Inr s3" by blast
    have r: "process_worker env (request\<lparr>dry_run := False\<rparr>) period segs adjs w br
        = Inr (append_created (remittance_public (uuid4 env (uuids_drawn br)) ?Rr ?c period) g n
                 (br\<lparr>b_session := s3, uuids_drawn := uuids_drawn br + 1\<rparr>))"
      using t False s3 by (auto simp: process_worker_def Let_def)
    have "same_summaries
            (append_created (remittance_public (uuid4 env (uuids_drawn bd + 1)) ?Rd ?c period) g n
                 (bd\<lparr>uuids_drawn := uuids_drawn bd + 2\<rparr>))
            (append_created (remittance_public (uuid4 env (uuids_drawn br)) ?Rr ?c period) g n
                 (br\<lparr>b_session := s3, uuids_drawn := uuids_drawn br + 1\<rparr>))"
      using sim by (simp add: same_summaries_def remittance_public_def new_remittance_def Let_def)
    with d r show ?thesis by simp
  qed
qed

lemma process_workers_dry_real:
  assumes "same_summaries bd br"
  shows "(\<forall>e. process_workers env (request\<lparr>dry_run := True\<rparr>) period segs adjs ws bd = Inl e
              \<longrightarrow> process_workers env (request\<lparr>dry_run := False\<rparr>) period segs adjs ws br = Inl e)
         \<and> (\<forall>bd'. process_workers env (request\<lparr>dry_run := True\<rparr>) period segs adjs ws bd = Inr bd'
              \<longrightarrow> b_session bd' = b_session bd
                  \<and> (\<exists>br'. process_workers env (request\<lparr>dry_run := False\<rparr>) period segs adjs ws br = Inr br'
                        \<and> same_summaries bd' br'))"
  using assms
proof (induction ws arbitrary: bd br)
  case Nil
  then show ?case by simp
next
  case (Cons w ws)
  note step = process_worker_dry_real[OF Cons.prems, of env request period segs adjs w]
  show ?case
  proof (cases "process_worker env (request\<lparr>dry_run := True\<rparr>) period segs adjs w bd")
    case (Inl e)
    from step[THEN conjunct1, rule_format, OF Inl]
    have "process_worker env (request\<lparr>dry_run := False\<rparr>) period segs adjs w br = Inl e" .
    with Inl show ?thesis by simp
  next
    case (Inr bd1)
    from step[THEN conjunct2, rule_format, OF Inr] obtain br1 where
      s1: "b_session bd1 = b_session bd"
      and r1: "process_worker env (request\<lparr>dry_run := False\<rparr>) period segs adjs w br = Inr br1"
      and sim1: "same_summaries bd1 br1"
      by blast
    have d: "process_workers env (request\<lparr>dry_run := True\<rparr>) period segs adjs (w # ws) bd
        = process_workers env (request\<lparr>dry_run := True\<rparr>) period segs adjs ws bd1"
      using Inr by simp
    have r: "process_workers env (request\<lparr>dry_run := False\<rparr>) period segs adjs (w # ws) br
        = process_workers env (request\<lparr>dry_run := False\<rparr>) period segs adjs ws br1"
      using r1 by simp
    show ?thesis
      unfolding d r s1[symmetric] by (rule Cons.IH[OF sim1])
  qed
qed

lemma run_batch_dry_real:
  "(\<forall>e. run_batch env session (request\<lparr>dry_run := True\<rparr>) period = Inl e
        \<longrightarrow> run_batch env session (request\<lparr>dry_run := False\<rparr>) period = Inl e)
   \<and> (\<forall>bd. run_batch env session (request\<lparr>dry_run := True\<rparr>) period = Inr bd
        \<longrightarrow> b_session bd = session
            \<and> (\<exists>br. run_batch env session (request\<lparr>dry_run := False\<rparr>) period = Inr br
                  \<and> same_summaries bd br))"
proof -
  let ?b0 = "\<lparr>b_session = session, b_remittances = [], total_gross = 0, total_net = 0, uuids_drawn = 0\<rparr>"
  have sim0: "same_summaries ?b0 ?b0" by (simp add: same_summaries_def)
  have "b_session ?b0 = session" by simp
  with process_workers_dry_real[OF sim0, of env request period] show ?thesis
    unfolding run_batch_def Let_def by simp
qed

text \<open>
  C4. For every session and every request, the call with \<open>dry_run = True\<close> fails exactly
  when the call with \<open>dry_run = False\<close> fails, with the same error. When it returns, the
  stored session is the one it was given, the loop has written nothing to the session
  either (no remittance row, no field of a segment, adjustment or worklog), and the real
  call returns the same list of remittances (worker, gross, net, status, worklog count
  and period; the ids differ, the preview ids being drawn for the preview only), the
  same count and the same total gross and total net.
\<close>

theorem dry_run_previews_real_run:
  "(\<forall>e. generate_remittances env session (request\<lparr>dry_run := True\<rparr>) = Inl e
        \<longrightarrow> generate_remittances env session (request\<lparr>dry_run := False\<rparr>) = Inl e)
   \<and> (\<forall>s1 r1. generate_remittances env session (request\<lparr>dry_run := True\<rparr>) = Inr (s1, r1)
        \<longrightarrow> s1 = session
            \<and> (\<forall>period b. run_batch env session (request\<lparr>dry_run := True\<rparr>) period = Inr b
                  \<longrightarrow> b_session b = session)
            \<and> (\<exists>s2 r2. generate_remittances env session (request\<lparr>dry_run := False\<rparr>) = Inr (s2, r2)
                  \<and> map (\<lambda>r. r\<lparr>rp_id := 0\<rparr>) (resp_remittances r1)
                      = map (\<lambda>r. r\<lparr>rp_id := 0\<rparr>) (resp_remittances r2)
                  \<and> remittances_created r1 = remittances_created r2
                  \<and> total_gross_amount r1 = total_gross_amount r2
                  \<and> total_net_amount r1 = total_net_amount r2))"
proof -
  have pending: "b_session b = session"
    if "run_batch env session (request\<lparr>dry_run := True\<rparr>) period = Inr b" for period b
    using run_batch_dry_real[of env session request period, THEN conjunct2, rule_format, OF that]
    by simp
  have err: "generate_remittances env session (request\<lparr>dry_run := False\<rparr>) = Inl e"
    if "generate_remittances env session (request\<lparr>dry_run := True\<rparr>) = Inl e" for e
  proof (cases "resolve_period (today env) (req_period_start request) (req_period_end request)")
    case (Inl e')
    with that show ?thesis by (simp add: generate_remittances_def)
  next
    case (Inr period)
    with that have "run_batch env session (request\<lparr>dry_run := True\<rparr>) period = Inl e"
      by (auto simp: generate_remittances_def split: sum.splits)
    from run_batch_dry_real[of env session request period, THEN conjunct1, rule_format, OF this]
    show ?thesis using Inr by (simp add: generate_remittances_def)
  qed
  have ok: "s1 = session
            \<and> (\<exists>s2 r2. generate_remittances env session (request\<lparr>dry_run := False\<rparr>) = Inr (s2, r2)
                  \<and> map (\<lambda>r. r\<lparr>rp_id := 0\<rparr>) (resp_remittances r1)
                      = map (\<lambda>r. r\<lparr>rp_id := 0\<rparr>) (resp_remittances r2)
                  \<and> remittances_created r1 = remittances_created r2
                  \<and> total_gross_amount r1 = total_gross_amount r2
                  \<and> total_net_amount r1 = total_net_amount r2)"
    if "generate_remittances env session (request\<lparr>dry_run := True\<rparr>) = Inr (s1, r1)" for s1 r1
    using that
  proof (cases rule: generate_cases)
    case (1 period bd)
    from run_batch_dry_real[of env session request period, THEN conjunct2, rule_format, OF 1(2)]
    obtain br where
      r: "run_batch env session (request\<lparr>dry_run := False\<rparr>) period = Inr br"
      and sim: "same_summaries bd br"
      by blast
    from sim have len: "length (b_remittances bd) = length (b_remittances br)"
      unfolding same_summaries_def by (metis length_map)
    from 1(1) r have "generate_remittances env session (request\<lparr>dry_run := False\<rparr>)
        = Inr (b_session br,
               \<lparr>remittances_created = length (b_remittances br),
                total_gross_amount = quantize (total_gross br),
                total_net_amount = quantize (total_net br),
                resp_remittances = b_remittances br,
                resp_dry_run = False,
                resp_period_start = fst period,
                resp_period_end = snd period\<rparr>)"
      by (simp add: generate_remittances_def)
    with sim len 1(3,4) show ?thesis
      by (simp add: same_summaries_def)
  qed
  show ?thesis
  proof (intro conjI allI impI)
    fix e assume "generate_remittances env session (request\<lparr>dry_run := True\<rparr>) = Inl e"
    then show "generate_remittances env session (request\<lparr>dry_run := False\<rparr>) = Inl e" by (rule err)
  next
    fix s1 r1 assume g: "generate_remittances env session (request\<lparr>dry_run := True\<rparr>) = Inr (s1, r1)"
    from ok[OF g] show "s1 = session" by simp
    from ok[OF g] show "\<exists>s2 r2. generate_remittances env session (request\<lparr>dry_run := False\<rparr>) = Inr (s2, r2)
                  \<and> map (\<lambda>r. r\<lparr>rp_id := 0\<rparr>) (resp_remittances r1)
                      = map (\<lambda>r. r\<lparr>rp_id := 0\<rparr>) (resp_remittances r2)
                  \<and> remittances_created r1 = remittances_created r2
                  \<and> total_gross_amount r1 = total_gross_amount r2
                  \<and> total_net_amount r1 = total_net_amount r2" by simp
    fix period b assume "run_batch env session (request\<lparr>dry_run := True\<rparr>) period = Inr b"
    then show "b_session b = session" by (rule pending)
  qed
qed

lemma demo_dry_run:
  "case generate_remittances env0 demo_session (request0\<lparr>dry_run := True\<rparr>) of
     Inl e \<Rightarrow> False
   | Inr (s, r) \<Rightarrow>
       remittances_created r = 2 \<and> total_net_amount r = 3503 / 100"
  by code_simp

theorem dry_run_previews_real_run_witness:
  "\<exists>r1 s2 r2. generate_remittances env0 demo_session (request0\<lparr>dry_run := True\<rparr>)
        = Inr (demo_session, r1)
      \<and> generate_remittances env0 demo_session (request0\<lparr>dry_run := False\<rparr>) = Inr (s2, r2)
      \<and> remittances_created r1 = 2 \<and> remittances_created r2 = 2
      \<and> total_net_amount r1 = 3503 / 100 \<and> total_net_amount r2 = 3503 / 100"
proof -
  from demo_dry_run obtain s1 r1 where
    g: "generate_remittances env0 demo_session (request0\<lparr>dry_run := True\<rparr>) = Inr (s1, r1)"
    and c: "remittances_created r1 = 2" "total_net_amount r1 = 3503 / 100"
    by (auto split: sum.splits)
  from dry_run_previews_real_run[of env0 demo_session request0, THEN conjunct2, rule_format, OF g]
  obtain s2 r2 where "s1 = demo_session"
    "generate_remittances env0 demo_session (request0\<lparr>dry_run := False\<rparr>) = Inr (s2, r2)"
    "remittances_created r1 = remittances_created r2"
    "total_net_amount r1 = total_net_amount r2"
    by blast
  with g c show ?thesis
    by (intro exI[of _ r1] exI[of _ s2] exI[of _ r2]) simp
qed

section \<open>A COMPLETED run in closed form\<close>

lemma mark_rows_empty [simp]: "mark_rows key upd {} rows = rows"
  by (simp add: mark_rows_def)

lemma mark_rows_insert:
  assumes "\<And>x. key (upd x) = key x" "\<And>x. upd (upd x) = upd x"
  shows "mark_rows key upd M (map (\<lambda>x. if key x = k then upd x else x) rows)
         = mark_rows key upd (insert k M) rows"
  using assms by (auto simp: mark_rows_def)

lemma set_remitted_seg_simps [simp]:
  "seg_id (set_remitted_seg r x) = seg_id x"
  "seg_worklog_id (set_remitted_seg r x) = seg_worklog_id x"
  "start_time (set_remitted_seg r x) = start_time x"
  "end_time (set_remitted_seg r x) = end_time x"
  "seg_status (set_remitted_seg r x) = seg_status x"
  "seg_settlement_status (set_remitted_seg r x) = REMITTED"
  "seg_remittance_id (set_remitted_seg r x) = Some r"
  "set_remitted_seg r (set_remitted_seg r' x) = set_remitted_seg r x"
  by (simp_all add: set_remitted_seg_def)

lemma set_remitted_adj_simps [simp]:
  "adj_id (set_remitted_adj r x) = adj_id x"
  "adj_worklog_id (set_remitted_adj r x) = adj_worklog_id x"
  "amount (set_remitted_adj r x) = amount x"
  "adj_settlement_status (set_remitted_adj r x) = REMITTED"
  "adj_remittance_id (set_remitted_adj r x) = Some r"
  "set_remitted_adj r (set_remitted_adj r' x) = set_remitted_adj r x"
  by (simp_all add: set_remitted_adj_def)

lemma mark_segments_rows:
  "mark_segments rid ps s = Inr s' \<Longrightarrow>
   time_segments s' = mark_rows seg_id (set_remitted_seg rid) (seg_id ` fst ` set ps) (time_segments s)"
proof (induction ps arbitrary: s)
  case Nil
  then show ?case by simp
next
  case (Cons p ps)
  obtain seg wl where p: "p = (seg, wl)" by (cases p)
  from Cons.prems p obtain a where a: "calculate_segment_amount seg (hourly_rate wl) = Inr a"
    by (auto simp: Let_def split: sum.splits)
  let ?s1 = "update_worklog (wl_id wl)
                  (\<lambda>w. w\<lparr>total_remitted_amount := total_remitted_amount w + a,
                         wl_remittance_id := Some rid\<rparr>)
               (update_segment (seg_id seg)
                  (\<lambda>s. s\<lparr>seg_settlement_status := REMITTED, seg_remittance_id := Some rid\<rparr>) s)"
  from Cons.prems p a have m: "mark_segments rid ps ?s1 = Inr s'"
    by (simp add: Let_def)
  have t1: "time_segments ?s1 = map (\<lambda>x. if seg_id x = seg_id seg then set_remitted_seg rid x else x) (time_segments s)"
    by (simp add: update_worklog_def update_segment_def set_remitted_seg_def)
  have "time_segments s' = mark_rows seg_id (set_remitted_seg rid) (seg_id ` fst ` set ps) (time_segments ?s1)"
    by (rule Cons.IH[OF m])
  also have "\<dots> = mark_rows seg_id (set_remitted_seg rid) (insert (seg_id seg) (seg_id ` fst ` set ps)) (time_segments s)"
    unfolding t1 by (rule mark_rows_insert) simp_all
  finally show ?case by (simp add: p)
qed

lemma credit_seg_step:
  "credit_seg rid ps (if wl_id w = wl_id wl
                      then w\<lparr>total_remitted_amount := total_remitted_amount w + seg_price (seg, wl),
                             wl_remittance_id := Some rid\<rparr>
                      else w)
   = credit_seg rid ((seg, wl) # ps) w"
  by (simp add: credit_seg_def)

lemma mark_segments_worklogs:
  "mark_segments rid ps s = Inr s' \<Longrightarrow>
   worklogs s' = map (credit_seg rid ps) (worklogs s)"
proof (induction ps arbitrary: s)
  case Nil
  then show ?case by (simp add: credit_seg_def)
next
  case (Cons p ps)
  obtain seg wl where p: "p = (seg, wl)" by (cases p)
  from Cons.prems p obtain a where a: "calculate_segment_amount seg (hourly_rate wl) = Inr a"
    by (auto simp: Let_def split: sum.splits)
  then have sp: "seg_price (seg, wl) = a" by (simp add: seg_price_def)
  let ?s1 = "update_worklog (wl_id wl)
                  (\<lambda>w. w\<lparr>total_remitted_amount := total_remitted_amount w + a,
                         wl_remittance_id := Some rid\<rparr>)
               (update_segment (seg_id seg)
                  (\<lambda>s. s\<lparr>seg_settlement_status := REMITTED, seg_remittance_id := Some rid\<rparr>) s)"
  from Cons.prems p a have m: "mark_segments rid ps ?s1 = Inr s'"
    by (simp add: Let_def)
  have w1: "worklogs ?s1 = map (\<lambda>w. if wl_id w = wl_id wl
                      then w\<lparr>total_remitted_amount := total_remitted_amount w + seg_price (seg, wl),
                             wl_remittance_id := Some rid\<rparr>
                      else w) (worklogs s)"
    by (simp add: update_worklog_def update_segment_def sp)
  have "worklogs s' = map (credit_seg rid ps) (worklogs ?s1)"
    by (rule Cons.IH[OF m])
  also have "\<dots> = map (credit_seg rid ((seg, wl) # ps)) (worklogs s)"
    unfolding w1 by (simp add: credit_seg_step o_def)
  finally show ?case by (simp add: p)
qed

lemma mark_adjustments_rows:
  "adjustments (mark_adjustments rid qs s)
     = mark_rows adj_id (set_remitted_adj rid) (adj_id ` fst ` set qs) (adjustments s)"
proof (induction qs arbitrary: s)
  case Nil
  then show ?case by simp
next
  case (Cons q qs)
  obtain adj wl where q: "q = (adj, wl)" by (cases q)
  let ?s1 = "update_worklog (wl_id wl)
              (\<lambda>w. w\<lparr>total_remitted_amount := total_remitted_amount w + amount adj\<rparr>)
              (update_adjustment (adj_id adj)
                 (\<lambda>a. a\<lparr>adj_settlement_status := REMITTED, adj_remittance_id := Some rid\<rparr>) s)"
  have a1: "adjustments ?s1 = map (\<lambda>x. if adj_id x = adj_id adj then set_remitted_adj rid x else x) (adjustments s)"
    by (simp add: update_worklog_def update_adjustment_def set_remitted_adj_def)
  have "adjustments (mark_adjustments rid (q # qs) s) = adjustments (mark_adjustments rid qs ?s1)"
    by (simp add: q Let_def)
  also have "\<dots> = mark_rows adj_id (set_remitted_adj rid) (adj_id ` fst ` set qs) (adjustments ?s1)"
    by (rule Cons.IH)
  also have "\<dots> = mark_rows adj_id (set_remitted_adj rid) (insert (adj_id adj) (adj_id ` fst ` set qs)) (adjustments s)"
    unfolding a1 by (rule mark_rows_insert) simp_all
  finally show ?case by (simp add: q)
qed

lemma credit_adj_step:
  "credit_adj qs (if wl_id w = wl_id wl
                  then w\<lparr>total_remitted_amount := total_remitted_amount w + amount adj\<rparr>
                  else w)
   = credit_adj ((adj, wl) # qs) w"
  by (simp add: credit_adj_def)

lemma mark_adjustments_worklogs:
  "worklogs (mark_adjustments rid qs s) = map (credit_adj qs) (worklogs s)"
proof (induction qs arbitrary: s)
  case Nil
  then show ?case by (simp add: credit_adj_def)
next
  case (Cons q qs)
  obtain adj wl where q: "q = (adj, wl)" by (cases q)
  let ?s1 = "update_worklog (wl_id wl)
              (\<lambda>w. w\<lparr>total_remitted_amount := total_remitted_amount w + amount adj\<rparr>)
              (update_adjustment (adj_id adj)
                 (\<lambda>a. a\<lparr>adj_settlement_status := REMITTED, adj_remittance_id := Some rid\<rparr>) s)"
  have w1: "worklogs ?s1 = map (\<lambda>w. if wl_id w = wl_id wl
                  then w\<lparr>total_remitted_amount := total_remitted_amount w + amount adj\<rparr>
                  else w) (worklogs s)"
    by (simp add: update_worklog_def update_adjustment_def)
  have "worklogs (mark_adjustments rid (q # qs) s) = worklogs (mark_adjustments rid qs ?s1)"
    by (simp add: q Let_def)
  also have "\<dots> = map (credit_adj qs) (worklogs ?s1)"
    by (rule Cons.IH)
  also have "\<dots> = map (credit_adj ((adj, wl) # qs)) (worklogs s)"
    unfolding w1 by (simp add: credit_adj_step o_def)
  finally show ?case by (simp add: q)
qed

lemma mark_segments_worklogs_only:
  "mark_segments rid ps s = Inr s' \<Longrightarrow> adjustments s' = adjustments s"
  by (simp add: mark_segments_other)

lemma mark_adjustments_worklogs_only:
  "time_segments (mark_adjustments rid qs s) = time_segments s"
  by (simp add: mark_adjustments_other)

text \<open>The tables after the marking of one due worker.\<close>

lemma mark_remitted_tables:
  assumes "mark_remitted rid ps qs s = Inr s'"
  shows "time_segments s' = mark_rows seg_id (set_remitted_seg rid) (seg_id ` fst ` set ps) (time_segments s)"
    and "adjustments s' = mark_rows adj_id (set_remitted_adj rid) (adj_id ` fst ` set qs) (adjustments s)"
    and "worklogs s' = map (credit_adj qs \<circ> credit_seg rid ps) (worklogs s)"
    and "remittances s' = remittances s"
proof -
  from assms obtain s2 where m: "mark_segments rid ps s = Inr s2"
    and s': "s' = mark_adjustments rid qs s2"
    by (auto simp: mark_remitted_def split: sum.splits)
  show "time_segments s' = mark_rows seg_id (set_remitted_seg rid) (seg_id ` fst ` set ps) (time_segments s)"
    unfolding s' by (simp add: mark_adjustments_other mark_segments_rows[OF m])
  show "adjustments s' = mark_rows adj_id (set_remitted_adj rid) (adj_id ` fst ` set qs) (adjustments s)"
    unfolding s' by (simp add: mark_adjustments_rows mark_segments_other[OF m])
  show "worklogs s' = map (credit_adj qs \<circ> credit_seg rid ps) (worklogs s)"
    unfolding s' by (simp add: mark_adjustments_worklogs mark_segments_worklogs[OF m])
  show "remittances s' = remittances s"
    using assms by (rule mark_remitted_remittances)
qed

lemma process_worker_completed:
  assumes "process_worker env request period segs adjs w b = Inr b'"
    and "\<not> dry_run request" and "outcome_status request = COMPLETED"
  shows "(\<not> is_due segs adjs w \<longrightarrow> b' = b)
         \<and> (is_due segs adjs w \<longrightarrow>
              b_session b' = settle_worker env request period segs adjs (w, uuids_drawn b) (b_session b)
              \<and> uuids_drawn b' = Suc (uuids_drawn b))"
  using assms(1)
proof (cases rule: process_worker_cases)
  case skip
  then show ?thesis by (simp add: is_due_def)
next
  case (preview g n)
  with assms(2) show ?thesis by simp
next
  case (failed g n)
  with assms(3) show ?thesis by simp
next
  case (completed g n s3)
  from completed(1,2) have due: "is_due segs adjs w" by (auto simp: is_due_def)
  have gn: "worker_gross_net segs adjs w = (g, n)"
    using completed(1) by (simp add: worker_gross_net_def)
  note t = mark_remitted_tables[OF completed(5)]
  have "s3 = settle_worker env request period segs adjs (w, uuids_drawn b) (b_session b)"
    unfolding settle_worker_def using t gn by simp
  with due show ?thesis unfolding completed(6) by simp
qed

lemma process_workers_completed:
  assumes "process_workers env request period segs adjs ws b = Inr b'"
    and "\<not> dry_run request" and "outcome_status request = COMPLETED"
  shows "b_session b' = fold (settle_worker env request period segs adjs)
                          (plan (is_due segs adjs) ws (uuids_drawn b)) (b_session b)"
  using assms(1)
proof (induction ws arbitrary: b)
  case Nil
  then show ?case by simp
next
  case (Cons w ws)
  from Cons.prems obtain b1 where
    1: "process_worker env request period segs adjs w b = Inr b1"
    and 2: "process_workers env request period segs adjs ws b1 = Inr b'"
    by (auto split: sum.splits)
  note step = process_worker_completed[OF 1 assms(2,3)]
  note ih = Cons.IH[OF 2]
  show ?case
  proof (cases "is_due segs adjs w")
    case True
    with step have "b_session b1 = settle_worker env request period segs adjs (w, uuids_drawn b) (b_session b)"
      "uuids_drawn b1 = Suc (uuids_drawn b)" by simp_all
    with ih True show ?thesis by simp
  next
    case False
    with step have "b1 = b" by simp
    with ih False show ?thesis by simp
  qed
qed

text \<open>The plan lists the due workers in order, each with the number of its UUID.\<close>

lemma plan_fst: "map fst (plan due ws d) = filter due ws"
  by (induction ws arbitrary: d) auto

lemma plan_mem:
  "(w, k) \<in> set (plan due ws d) \<Longrightarrow>
   d \<le> k \<and> k < d + length (filter due ws) \<and> due w \<and> w \<in> set ws"
proof (induction ws arbitrary: d)
  case Nil
  then show ?case by simp
next
  case (Cons v ws)
  show ?case
  proof (cases "due v")
    case True
    with Cons.prems have "(w, k) = (v, d) \<or> (w, k) \<in> set (plan due ws (Suc d))" by simp
    then show ?thesis
    proof
      assume "(w, k) = (v, d)"
      with True show ?thesis by simp
    next
      assume "(w, k) \<in> set (plan due ws (Suc d))"
      from Cons.IH[OF this] True show ?thesis by simp
    qed
  next
    case False
    with Cons.prems have "(w, k) \<in> set (plan due ws d)" by simp
    from Cons.IH[OF this] False show ?thesis by simp
  qed
qed

lemma plan_distinct_snd: "distinct (map snd (plan due ws d))"
proof (induction ws arbitrary: d)
  case Nil
  then show ?case by simp
next
  case (Cons v ws)
  have "d \<notin> snd ` set (plan due ws (Suc d))"
  proof
    assume "d \<in> snd ` set (plan due ws (Suc d))"
    then obtain w where "(w, d) \<in> set (plan due ws (Suc d))" by force
    from plan_mem[OF this] show False by simp
  qed
  with Cons.IH show ?case by simp
qed

lemma plan_distinct_fst: "distinct ws \<Longrightarrow> distinct (map fst (plan due ws d))"
  by (simp add: plan_fst)

text \<open>Projections of the fold.\<close>

lemma fold_settle_segments:
  "time_segments (fold (settle_worker env request period segs adjs) pl s)
   = fold (\<lambda>e. mark_rows seg_id (set_remitted_seg (uuid4 env (snd e)))
                  (seg_id ` fst ` set (worker_get segs (fst e)))) pl (time_segments s)"
  by (induction pl arbitrary: s) (simp_all add: settle_worker_def)

lemma fold_settle_adjustments:
  "adjustments (fold (settle_worker env request period segs adjs) pl s)
   = fold (\<lambda>e. mark_rows adj_id (set_remitted_adj (uuid4 env (snd e)))
                  (adj_id ` fst ` set (worker_get adjs (fst e)))) pl (adjustments s)"
  by (induction pl arbitrary: s) (simp_all add: settle_worker_def)

lemma fold_settle_worklogs:
  "worklogs (fold (settle_worker env request period segs adjs) pl s)
   = map (fold (\<lambda>e. credit_adj (worker_get adjs (fst e))
                      \<circ> credit_seg (uuid4 env (snd e)) (worker_get segs (fst e))) pl) (worklogs s)"
  by (induction pl arbitrary: s) (simp_all add: settle_worker_def o_def)

lemma fold_settle_remittances:
  "remittances (fold (settle_worker env request period segs adjs) pl s)
   = remittances s @
     map (\<lambda>e. new_remittance env request period (fst e) (snd e)
                 (fst (worker_gross_net segs adjs (fst e))) (snd (worker_gross_net segs adjs (fst e)))) pl"
  by (induction pl arbitrary: s) (simp_all add: settle_worker_def)

text \<open>Row by row: a row is untouched, or carries the mark of a plan entry that holds its key.\<close>

lemma fold_mark_rows:
  assumes k: "\<And>d x. key (upd d x) = key x" and u: "\<And>d d' x. upd d (upd d' x) = upd d x"
  shows "list_all2
           (\<lambda>x x'. (x' = x \<and> (\<forall>e\<in>set pl. key x \<notin> M (fst e)))
                    \<or> (\<exists>e\<in>set pl. key x \<in> M (fst e) \<and> x' = upd (snd e) x))
           rows (fold (\<lambda>e. mark_rows key (upd (snd e)) (M (fst e))) pl rows)"
proof (induction pl arbitrary: rows)
  case Nil
  then show ?case by (simp add: list_all2_same)
next
  case (Cons e pl)
  let ?g = "\<lambda>x. if key x \<in> M (fst e) then upd (snd e) x else x"
  have r1: "mark_rows key (upd (snd e)) (M (fst e)) rows = map ?g rows"
    by (simp add: mark_rows_def)
  have "list_all2
           (\<lambda>x x'. (x' = ?g x \<and> (\<forall>e\<in>set pl. key (?g x) \<notin> M (fst e)))
                    \<or> (\<exists>e\<in>set pl. key (?g x) \<in> M (fst e) \<and> x' = upd (snd e) (?g x)))
           rows (fold (\<lambda>e. mark_rows key (upd (snd e)) (M (fst e))) pl (map ?g rows))"
    using Cons.IH[of "map ?g rows"] by (simp add: list_all2_map1)
  then have "list_all2
           (\<lambda>x x'. (x' = x \<and> (\<forall>e'\<in>set (e # pl). key x \<notin> M (fst e')))
                    \<or> (\<exists>e'\<in>set (e # pl). key x \<in> M (fst e') \<and> x' = upd (snd e') x))
           rows (fold (\<lambda>e. mark_rows key (upd (snd e)) (M (fst e))) pl (map ?g rows))"
  proof (rule list_all2_mono)
    fix x x'
    assume h: "(x' = ?g x \<and> (\<forall>e\<in>set pl. key (?g x) \<notin> M (fst e)))
                    \<or> (\<exists>e\<in>set pl. key (?g x) \<in> M (fst e) \<and> x' = upd (snd e) (?g x))"
    have kg: "key (?g x) = key x" by (simp add: k)
    show "(x' = x \<and> (\<forall>e'\<in>set (e # pl). key x \<notin> M (fst e')))
                    \<or> (\<exists>e'\<in>set (e # pl). key x \<in> M (fst e') \<and> x' = upd (snd e') x)"
    proof (cases "key x \<in> M (fst e)")
      case True
      then have g: "?g x = upd (snd e) x" by simp
      from h show ?thesis
      proof
        assume "x' = ?g x \<and> (\<forall>e\<in>set pl. key (?g x) \<notin> M (fst e))"
        with True g show ?thesis by auto
      next
        assume "\<exists>e\<in>set pl. key (?g x) \<in> M (fst e) \<and> x' = upd (snd e) (?g x)"
        then obtain e' where "e' \<in> set pl" "key x \<in> M (fst e')" "x' = upd (snd e') (upd (snd e) x)"
          using True by (auto simp: k)
        then show ?thesis by (auto simp: u)
      qed
    next
      case False
      then have g: "?g x = x" by simp
      from h False show ?thesis unfolding g by auto
    qed
  qed
  then show ?case by (simp add: r1)
qed

section \<open>Running again\<close>

lemma pair_worklogs_mem:
  "(x, wl) \<in> set (pair_worklogs s key xs) \<longleftrightarrow> x \<in> set xs \<and> get_worklog s (key x) = Some wl"
  by (induction xs) (auto split: option.splits)

lemma find_map_key:
  assumes "\<And>w. wl_id (G w) = wl_id w"
  shows "find (\<lambda>w. wl_id w = k) (map G ws) = map_option G (find (\<lambda>w. wl_id w = k) ws)"
  using assms by (induction ws) auto

lemma credit_fields [simp]:
  "wl_id (credit_seg r ps w) = wl_id w" "worker_id (credit_seg r ps w) = worker_id w"
  "hourly_rate (credit_seg r ps w) = hourly_rate w" "task_id (credit_seg r ps w) = task_id w"
  "wl_id (credit_adj qs w) = wl_id w" "worker_id (credit_adj qs w) = worker_id w"
  "hourly_rate (credit_adj qs w) = hourly_rate w" "task_id (credit_adj qs w) = task_id w"
  by (simp_all add: credit_seg_def credit_adj_def)

lemma fold_credit_fields:
  "wl_id (fold (\<lambda>e. credit_adj (A e) \<circ> credit_seg (r e) (S e)) pl w) = wl_id w
   \<and> worker_id (fold (\<lambda>e. credit_adj (A e) \<circ> credit_seg (r e) (S e)) pl w) = worker_id w
   \<and> hourly_rate (fold (\<lambda>e. credit_adj (A e) \<circ> credit_seg (r e) (S e)) pl w) = hourly_rate w
   \<and> task_id (fold (\<lambda>e. credit_adj (A e) \<circ> credit_seg (r e) (S e)) pl w) = task_id w"
  by (induction pl arbitrary: w) simp_all

lemma get_worklog_settled:
  assumes "get_worklog (fold (settle_worker env request period segs adjs) pl s) k = Some wl'"
  obtains wl where "get_worklog s k = Some wl" "worker_id wl' = worker_id wl"
    "hourly_rate wl' = hourly_rate wl" "wl_id wl' = wl_id wl"
proof -
  let ?G = "fold (\<lambda>e. credit_adj (worker_get adjs (fst e))
                      \<circ> credit_seg (uuid4 env (snd e)) (worker_get segs (fst e))) pl"
  have id: "\<And>w. wl_id (?G w) = wl_id w"
    using fold_credit_fields[of "\<lambda>e. worker_get adjs (fst e)" "\<lambda>e. uuid4 env (snd e)" "\<lambda>e. worker_get segs (fst e)" pl]
    by simp
  have "get_worklog (fold (settle_worker env request period segs adjs) pl s) k
        = map_option ?G (get_worklog s k)"
    unfolding get_worklog_def fold_settle_worklogs by (rule find_map_key[OF id])
  with assms obtain wl where wl: "get_worklog s k = Some wl" "wl' = ?G wl" by auto
  show thesis
    using wl fold_credit_fields[of "\<lambda>e. worker_get adjs (fst e)" "\<lambda>e. uuid4 env (snd e)" "\<lambda>e. worker_get segs (fst e)" pl wl]
    by (intro that[of wl]) simp_all
qed

lemma list_all2_mem2:
  "list_all2 P xs ys \<Longrightarrow> y \<in> set ys \<Longrightarrow> \<exists>x\<in>set xs. P x y"
  by (induction rule: list_all2_induct) auto

lemma settled_segment_row:
  assumes "x' \<in> set (time_segments (fold (settle_worker env request period segs adjs) pl s))"
  shows "(x' \<in> set (time_segments s) \<and> (\<forall>e\<in>set pl. seg_id x' \<notin> seg_id ` fst ` set (worker_get segs (fst e))))
         \<or> (\<exists>x\<in>set (time_segments s). \<exists>e\<in>set pl.
               seg_id x \<in> seg_id ` fst ` set (worker_get segs (fst e))
               \<and> x' = set_remitted_seg (uuid4 env (snd e)) x)"
proof -
  have "list_all2
           (\<lambda>x x'. (x' = x \<and> (\<forall>e\<in>set pl. seg_id x \<notin> seg_id ` fst ` set (worker_get segs (fst e))))
                    \<or> (\<exists>e\<in>set pl. seg_id x \<in> seg_id ` fst ` set (worker_get segs (fst e))
                          \<and> x' = set_remitted_seg (uuid4 env (snd e)) x))
           (time_segments s)
           (fold (\<lambda>e. mark_rows seg_id (set_remitted_seg (uuid4 env (snd e)))
                  (seg_id ` fst ` set (worker_get segs (fst e)))) pl (time_segments s))"
    by (rule fold_mark_rows[where key = seg_id and upd = "\<lambda>d. set_remitted_seg (uuid4 env d)"
          and M = "\<lambda>w. seg_id ` fst ` set (worker_get segs w)"]) simp_all
  from list_all2_mem2[OF this assms[unfolded fold_settle_segments]] show ?thesis by blast
qed

lemma settled_adjustment_row:
  assumes "x' \<in> set (adjustments (fold (settle_worker env request period segs adjs) pl s))"
  shows "(x' \<in> set (adjustments s) \<and> (\<forall>e\<in>set pl. adj_id x' \<notin> adj_id ` fst ` set (worker_get adjs (fst e))))
         \<or> (\<exists>x\<in>set (adjustments s). \<exists>e\<in>set pl.
               adj_id x \<in> adj_id ` fst ` set (worker_get adjs (fst e))
               \<and> x' = set_remitted_adj (uuid4 env (snd e)) x)"
proof -
  have "list_all2
           (\<lambda>x x'. (x' = x \<and> (\<forall>e\<in>set pl. adj_id x \<notin> adj_id ` fst ` set (worker_get adjs (fst e))))
                    \<or> (\<exists>e\<in>set pl. adj_id x \<in> adj_id ` fst ` set (worker_get adjs (fst e))
                          \<and> x' = set_remitted_adj (uuid4 env (snd e)) x))
           (adjustments s)
           (fold (\<lambda>e. mark_rows adj_id (set_remitted_adj (uuid4 env (snd e)))
                  (adj_id ` fst ` set (worker_get adjs (fst e)))) pl (adjustments s))"
    by (rule fold_mark_rows[where key = adj_id and upd = "\<lambda>d. set_remitted_adj (uuid4 env d)"
          and M = "\<lambda>w. adj_id ` fst ` set (worker_get adjs w)"]) simp_all
  from list_all2_mem2[OF this assms[unfolded fold_settle_adjustments]] show ?thesis by blast
qed

lemma due_in_plan:
  "w \<in> set ws \<Longrightarrow> due w \<Longrightarrow> \<exists>d. (w, d) \<in> set (plan due ws k)"
proof -
  assume "w \<in> set ws" "due w"
  then have "w \<in> set (map fst (plan due ws k))" by (simp add: plan_fst)
  then show ?thesis by force
qed

lemma worker_in_all_worker_ids:
  "(x, wl) \<in> set segs \<Longrightarrow> worker_id wl \<in> set (all_worker_ids segs adjs)"
  "(a, wl) \<in> set adjs \<Longrightarrow> worker_id wl \<in> set (all_worker_ids segs adjs)"
  by (force simp: all_worker_ids_def)+

text \<open>After a COMPLETED run every unit that is still selected prices to 0.\<close>

lemma settled_pairs_zero:
  fixes s :: Session and env :: Env and request :: GenerateRemittancesRequest
    and period :: "date \<times> date"
  defines "segs \<equiv> pair_worklogs s seg_worklog_id (unremitted_segments s)"
    and "adjs \<equiv> pair_worklogs s adj_worklog_id (unremitted_adjustments s)"
  defines "s' \<equiv> fold (settle_worker env request period segs adjs)
                   (plan (is_due segs adjs) (all_worker_ids segs adjs) 0) s"
  shows "\<forall>p\<in>set (pair_worklogs s' seg_worklog_id (unremitted_segments s')). priced p \<and> seg_price p = 0"
    and "\<forall>q\<in>set (pair_worklogs s' adj_worklog_id (unremitted_adjustments s')). amount (fst q) = 0"
proof -
  let ?pl = "plan (is_due segs adjs) (all_worker_ids segs adjs) 0"
  show "\<forall>p\<in>set (pair_worklogs s' seg_worklog_id (unremitted_segments s')). priced p \<and> seg_price p = 0"
  proof
    fix p assume p: "p \<in> set (pair_worklogs s' seg_worklog_id (unremitted_segments s'))"
    obtain x' wl' where pe: "p = (x', wl')" by (cases p)
    from p pe have x': "x' \<in> set (time_segments s')" "seg_status x' = ACTIVE"
      "seg_settlement_status x' = UNREMITTED" and g': "get_worklog s' (seg_worklog_id x') = Some wl'"
      by (auto simp: pair_worklogs_mem unremitted_segments_def)
    from g' obtain wl where wl: "get_worklog s (seg_worklog_id x') = Some wl"
      "worker_id wl' = worker_id wl" "hourly_rate wl' = hourly_rate wl"
      unfolding s'_def by (rule get_worklog_settled)
    from settled_segment_row[OF x'(1)[unfolded s'_def]] x'(3)
    have old: "x' \<in> set (time_segments s)"
      and nm: "\<forall>e\<in>set ?pl. seg_id x' \<notin> seg_id ` fst ` set (worker_get segs (fst e))"
      by auto
    from old x'(2,3) wl(1) have mem: "(x', wl) \<in> set segs"
      by (simp add: segs_def pair_worklogs_mem unremitted_segments_def)
    then have memw: "(x', wl) \<in> set (worker_get segs (worker_id wl))"
      by (simp add: worker_get_def)
    have "\<not> is_due segs adjs (worker_id wl)"
    proof
      assume "is_due segs adjs (worker_id wl)"
      from due_in_plan[where due = "is_due segs adjs" and k = 0,
          OF worker_in_all_worker_ids(1)[OF mem, of adjs] this]
      obtain d where "(worker_id wl, d) \<in> set ?pl" by blast
      with nm have "seg_id x' \<notin> seg_id ` fst ` set (worker_get segs (worker_id wl))" by force
      with memw show False by force
    qed
    then have z: "worker_totals (worker_get segs (worker_id wl)) (worker_get adjs (worker_id wl)) = Inr (0, 0)"
      by (simp add: is_due_def)
    from worker_totals_zero[OF z] worker_totals_closed[OF z] memw
    have "seg_price (x', wl) = 0" "priced (x', wl)" by auto
    then show "priced p \<and> seg_price p = 0"
      by (simp add: pe priced_def seg_price_def wl(3))
  qed
  show "\<forall>q\<in>set (pair_worklogs s' adj_worklog_id (unremitted_adjustments s')). amount (fst q) = 0"
  proof
    fix q assume q: "q \<in> set (pair_worklogs s' adj_worklog_id (unremitted_adjustments s'))"
    obtain x' wl' where qe: "q = (x', wl')" by (cases q)
    from q qe have x': "x' \<in> set (adjustments s')"
      "adj_settlement_status x' = UNREMITTED" and g': "get_worklog s' (adj_worklog_id x') = Some wl'"
      by (auto simp: pair_worklogs_mem unremitted_adjustments_def)
    from g' obtain wl where wl: "get_worklog s (adj_worklog_id x') = Some wl"
      unfolding s'_def by (rule get_worklog_settled)
    from settled_adjustment_row[OF x'(1)[unfolded s'_def]] x'(2)
    have old: "x' \<in> set (adjustments s)"
      and nm: "\<forall>e\<in>set ?pl. adj_id x' \<notin> adj_id ` fst ` set (worker_get adjs (fst e))"
      by auto
    from old x'(2) wl(1) have mem: "(x', wl) \<in> set adjs"
      by (simp add: adjs_def pair_worklogs_mem unremitted_adjustments_def)
    then have memw: "(x', wl) \<in> set (worker_get adjs (worker_id wl))"
      by (simp add: worker_get_def)
    have "\<not> is_due segs adjs (worker_id wl)"
    proof
      assume "is_due segs adjs (worker_id wl)"
      from due_in_plan[where due = "is_due segs adjs" and k = 0,
          OF worker_in_all_worker_ids(2)[OF mem, of segs] this]
      obtain d where "(worker_id wl, d) \<in> set ?pl" by blast
      with nm have "adj_id x' \<notin> adj_id ` fst ` set (worker_get adjs (worker_id wl))" by force
      with memw show False by force
    qed
    then have z: "worker_totals (worker_get segs (worker_id wl)) (worker_get adjs (worker_id wl)) = Inr (0, 0)"
      by (simp add: is_due_def)
    from worker_totals_zero[OF z] memw have "amount (fst (x', wl)) = 0" by blast
    then show "amount (fst q) = 0" by (simp add: qe)
  qed
qed

lemma sum_list_zero: "\<forall>x\<in>set xs. f x = (0::rat) \<Longrightarrow> sum_list (map f xs) = 0"
  by (induction xs) auto

lemma worker_totals_all_zero:
  assumes "\<forall>p\<in>set segs. priced p \<and> seg_price p = 0" "\<forall>q\<in>set adjs. amount (fst q) = 0"
  shows "worker_totals (worker_get segs w) (worker_get adjs w) = Inr (0, 0)"
proof -
  have p: "\<forall>p\<in>set (worker_get segs w). priced p" "\<forall>p\<in>set (worker_get segs w). seg_price p = 0"
    "\<forall>p\<in>set (worker_get segs w). max 0 (seg_price p) = 0"
    "\<forall>q\<in>set (worker_get adjs w). amount (fst q) = 0"
    "\<forall>q\<in>set (worker_get adjs w). max 0 (amount (fst q)) = 0"
    using assms by (auto simp: worker_get_def)
  show ?thesis
    unfolding worker_totals_priced[OF p(1)]
    using sum_list_zero[OF p(2)] sum_list_zero[OF p(3)] sum_list_zero[OF p(4)] sum_list_zero[OF p(5)]
    by simp
qed

lemma process_workers_all_skip:
  "\<forall>w\<in>set ws. worker_totals (worker_get segs w) (worker_get adjs w) = Inr (0, 0) \<Longrightarrow>
   process_workers env request period segs adjs ws b = Inr b"
  by (induction ws) (simp_all add: process_worker_skip)

lemma generate_completed:
  assumes "generate_remittances env session request = Inr (s', resp)"
    and "\<not> dry_run request" and "outcome_status request = COMPLETED"
  obtains period where
    "s' = fold (settle_worker env request period
                 (pair_worklogs session seg_worklog_id (unremitted_segments session))
                 (pair_worklogs session adj_worklog_id (unremitted_adjustments session)))
            (plan (is_due (pair_worklogs session seg_worklog_id (unremitted_segments session))
                          (pair_worklogs session adj_worklog_id (unremitted_adjustments session)))
               (all_worker_ids (pair_worklogs session seg_worklog_id (unremitted_segments session))
                               (pair_worklogs session adj_worklog_id (unremitted_adjustments session))) 0)
            session"
  using assms(1)
proof (cases rule: generate_cases)
  case (1 period b)
  from process_workers_completed[OF 1(2)[unfolded run_batch_def Let_def] assms(2,3)] 1(3) assms(2)
  show ?thesis by (intro that[of period]) simp
qed

lemma demo_paid_run:
  "case generate_remittances env0 demo_session request0 of
     Inl e \<Rightarrow> False
   | Inr (s, r) \<Rightarrow> s = demo_paid \<and> remittances_created r = 2"
  by code_simp

lemma wf_demo_session: "wf_session demo_session"
  by (simp add: wf_session_def demo_session_def seg0_def adj0_def wl0_def)



lemma demo_period:
  "resolve_period (today env1) (req_period_start request0) (req_period_end request0)
     = Inr (\<lparr>d_year = 2026, d_month = 3, d_day = 1\<rparr>, \<lparr>d_year = 2026, d_month = 3, d_day = 31\<rparr>)"
  by code_simp

lemma demo_rerun:
  "run_calls demo_paid [(env1, request0)] = demo_paid"
  by code_simp

text \<open>
  C2. After a call that is not a dry run and has no payout status override, so that the
  outcome is COMPLETED, a second call on the session the first one stored, in any
  environment and for any request whose period resolves, creates no remittance: its
  response counts 0 remittances, lists none, and has total gross 0 and total net 0. The
  second call also stores the session as it found it.
\<close>

theorem rerun_creates_nothing:
  assumes "generate_remittances env session request = Inr (s1, r1)"
    and "\<not> dry_run request" and "payout_status request = None"
    and "resolve_period (today env') (req_period_start request') (req_period_end request') = Inr period'"
  shows "generate_remittances env' s1 request' =
           Inr (s1, \<lparr>remittances_created = 0, total_gross_amount = 0, total_net_amount = 0,
                     resp_remittances = [], resp_dry_run = dry_run request',
                     resp_period_start = fst period', resp_period_end = snd period'\<rparr>)"
proof -
  have out: "outcome_status request = COMPLETED" using assms(3) by (simp add: outcome_status_def)
  from assms(1,2) out obtain period where
    s1: "s1 = fold (settle_worker env request period
                 (pair_worklogs session seg_worklog_id (unremitted_segments session))
                 (pair_worklogs session adj_worklog_id (unremitted_adjustments session)))
            (plan (is_due (pair_worklogs session seg_worklog_id (unremitted_segments session))
                          (pair_worklogs session adj_worklog_id (unremitted_adjustments session)))
               (all_worker_ids (pair_worklogs session seg_worklog_id (unremitted_segments session))
                               (pair_worklogs session adj_worklog_id (unremitted_adjustments session))) 0)
            session"
    by (rule generate_completed)
  let ?segs = "pair_worklogs s1 seg_worklog_id (unremitted_segments s1)"
  let ?adjs = "pair_worklogs s1 adj_worklog_id (unremitted_adjustments s1)"
  have z: "\<forall>p\<in>set ?segs. priced p \<and> seg_price p = 0" "\<forall>q\<in>set ?adjs. amount (fst q) = 0"
    unfolding s1 by (rule settled_pairs_zero)+
  have "\<forall>w\<in>set (all_worker_ids ?segs ?adjs).
          worker_totals (worker_get ?segs w) (worker_get ?adjs w) = Inr (0, 0)"
    using worker_totals_all_zero[OF z] by blast
  then have "run_batch env' s1 request' period' =
      Inr \<lparr>b_session = s1, b_remittances = [], total_gross = 0, total_net = 0, uuids_drawn = 0\<rparr>"
    unfolding run_batch_def Let_def by (rule process_workers_all_skip)
  with assms(4) show ?thesis
    by (simp add: generate_remittances_def)
qed

theorem rerun_creates_nothing_witness:
  "\<exists>r1 r2. generate_remittances env0 demo_session request0 = Inr (demo_paid, r1)
      \<and> remittances_created r1 = 2
      \<and> generate_remittances env1 demo_paid request0 = Inr (demo_paid, r2)
      \<and> remittances_created r2 = 0 \<and> total_gross_amount r2 = 0 \<and> total_net_amount r2 = 0
      \<and> resp_remittances r2 = []"
proof -
  from demo_paid_run obtain r1 where
    g: "generate_remittances env0 demo_session request0 = Inr (demo_paid, r1)"
    and n: "remittances_created r1 = 2"
    by (auto split: sum.splits)
  have h: "\<not> dry_run request0" "payout_status request0 = None" by (simp_all add: request0_def)
  from rerun_creates_nothing[OF g h demo_period] obtain r2 where
    g2: "generate_remittances env1 demo_paid request0 = Inr (demo_paid, r2)"
    and z: "remittances_created r2 = 0" "total_gross_amount r2 = 0" "total_net_amount r2 = 0"
      "resp_remittances r2 = []"
    by simp
  from g n g2 z show ?thesis by (intro exI[of _ r1] exI[of _ r2] conjI)
qed

section \<open>The ledger of a worklog through a run\<close>

lemma sum_list_filter_if:
  "sum_list (map f (filter P xs)) = sum_list (map (\<lambda>x. if P x then f x else (0::rat)) xs)"
  by (induction xs) auto

text \<open>The total of a worklog row through the credits of a plan.\<close>

lemma fold_credit_total:
  "total_remitted_amount (fold (\<lambda>e. credit_adj (A e) \<circ> credit_seg (r e) (S e)) pl w)
   = total_remitted_amount w
     + sum_list (map (\<lambda>e. sum_list (map seg_price (filter (\<lambda>p. wl_id (snd p) = wl_id w) (S e)))
                          + sum_list (map (\<lambda>q. amount (fst q)) (filter (\<lambda>q. wl_id (snd q) = wl_id w) (A e)))) pl)"
proof (induction pl arbitrary: w)
  case Nil
  then show ?case by simp
next
  case (Cons e pl)
  have id: "wl_id ((credit_adj (A e) \<circ> credit_seg (r e) (S e)) w) = wl_id w" by simp
  have t: "total_remitted_amount ((credit_adj (A e) \<circ> credit_seg (r e) (S e)) w)
      = total_remitted_amount w + sum_list (map seg_price (filter (\<lambda>p. wl_id (snd p) = wl_id w) (S e)))
          + sum_list (map (\<lambda>q. amount (fst q)) (filter (\<lambda>q. wl_id (snd q) = wl_id w) (A e)))"
    by (simp add: credit_adj_def credit_seg_def)
  show ?case
    using Cons.IH[of "(credit_adj (A e) \<circ> credit_seg (r e) (S e)) w"]
    unfolding id t
    by (simp add: add.assoc)
qed

lemma get_worklog_key: "get_worklog s k = Some wl \<Longrightarrow> wl_id wl = k \<and> wl \<in> set (worklogs s)"
  by (auto simp: get_worklog_def find_Some_iff)

lemma find_distinct:
  "distinct (map f xs) \<Longrightarrow> x \<in> set xs \<Longrightarrow> find (\<lambda>y. f y = f x) xs = Some x"
  by (induction xs) (auto simp: image_iff)

lemma get_worklog_row:
  "wf_session s \<Longrightarrow> w \<in> set (worklogs s) \<Longrightarrow> get_worklog s (wl_id w) = Some w"
  by (simp add: wf_session_def get_worklog_def find_distinct)

lemma pairs_of_worklog:
  assumes "get_worklog s k = Some w"
  shows "filter (\<lambda>p. wl_id (snd p) = k) (worker_get (pair_worklogs s key xs) w0)
         = (if w0 = worker_id w then map (\<lambda>x. (x, w)) (filter (\<lambda>x. key x = k) xs) else [])"
proof (induction xs)
  case Nil
  then show ?case by (simp add: worker_get_def)
next
  case (Cons x xs)
  show ?case
  proof (cases "get_worklog s (key x)")
    case None
    then have "key x \<noteq> k" using assms by auto
    with None Cons.IH show ?thesis by (simp add: worker_get_def)
  next
    case (Some wl)
    from get_worklog_key[OF Some] have id: "wl_id wl = key x" by simp
    show ?thesis
    proof (cases "key x = k")
      case True
      with Some assms have "wl = w" by simp
      moreover from get_worklog_key[OF assms] have "wl_id w = k" by simp
      ultimately show ?thesis using Some True Cons.IH by (auto simp: worker_get_def)
    next
      case False
      with Some id Cons.IH show ?thesis by (auto simp: worker_get_def)
    qed
  qed
qed

lemma sum_list_if_distinct:
  "distinct (map f pl) \<Longrightarrow>
   sum_list (map (\<lambda>e. if f e = a then (u::rat) else 0) pl) = (if a \<in> f ` set pl then u else 0)"
  by (induction pl) auto

lemma unremitted_of_worklog:
  "sum_list (map (\<lambda>x. seg_price (x, w)) (filter (\<lambda>x. seg_worklog_id x = wl_id w) (unremitted_segments s)))
   = sum_list (map (seg_due UNREMITTED w) (time_segments s))"
  unfolding unremitted_segments_def filter_filter sum_list_filter_if seg_due_def
  by (rule arg_cong[where f = sum_list]) (auto intro!: map_cong)

lemma unremitted_adj_of_worklog:
  "sum_list (map amount (filter (\<lambda>x. adj_worklog_id x = wl_id w) (unremitted_adjustments s)))
   = sum_list (map (adj_due UNREMITTED w) (adjustments s))"
  unfolding unremitted_adjustments_def filter_filter sum_list_filter_if adj_due_def
  by (rule arg_cong[where f = sum_list]) (auto intro!: map_cong)

text \<open>What one plan entry credits to a worklog row.\<close>

lemma credited_to_row:
  fixes s :: Session
  defines "segs \<equiv> pair_worklogs s seg_worklog_id (unremitted_segments s)"
    and "adjs \<equiv> pair_worklogs s adj_worklog_id (unremitted_adjustments s)"
  assumes "wf_session s" "w \<in> set (worklogs s)"
  shows "sum_list (map seg_price (filter (\<lambda>p. wl_id (snd p) = wl_id w) (worker_get segs w0)))
         + sum_list (map (\<lambda>q. amount (fst q)) (filter (\<lambda>q. wl_id (snd q) = wl_id w) (worker_get adjs w0)))
         = (if w0 = worker_id w then ledger_amount UNREMITTED s w else 0)"
proof -
  note g = get_worklog_row[OF assms(3,4)]
  show ?thesis
    unfolding segs_def adjs_def pairs_of_worklog[OF g] ledger_amount_def
    using unremitted_of_worklog[of w s] unremitted_adj_of_worklog[of w s]
    by (simp add: o_def)
qed

lemma settled_segments_rel:
  "list_all2
     (\<lambda>x x'. (x' = x \<and> (\<forall>e\<in>set pl. seg_id x \<notin> seg_id ` fst ` set (worker_get segs (fst e))))
              \<or> (\<exists>e\<in>set pl. seg_id x \<in> seg_id ` fst ` set (worker_get segs (fst e))
                    \<and> x' = set_remitted_seg (uuid4 env (snd e)) x))
     (time_segments s)
     (time_segments (fold (settle_worker env request period segs adjs) pl s))"
  unfolding fold_settle_segments
  by (rule fold_mark_rows[where key = seg_id and upd = "\<lambda>d. set_remitted_seg (uuid4 env d)"
          and M = "\<lambda>w. seg_id ` fst ` set (worker_get segs w)"]) simp_all

lemma settled_adjustments_rel:
  "list_all2
     (\<lambda>x x'. (x' = x \<and> (\<forall>e\<in>set pl. adj_id x \<notin> adj_id ` fst ` set (worker_get adjs (fst e))))
              \<or> (\<exists>e\<in>set pl. adj_id x \<in> adj_id ` fst ` set (worker_get adjs (fst e))
                    \<and> x' = set_remitted_adj (uuid4 env (snd e)) x))
     (adjustments s)
     (adjustments (fold (settle_worker env request period segs adjs) pl s))"
  unfolding fold_settle_adjustments
  by (rule fold_mark_rows[where key = adj_id and upd = "\<lambda>d. set_remitted_adj (uuid4 env d)"
          and M = "\<lambda>w. adj_id ` fst ` set (worker_get adjs w)"]) simp_all

lemma list_all2_map_eq:
  "list_all2 R xs ys \<Longrightarrow> (\<And>x y. R x y \<Longrightarrow> f y = g x) \<Longrightarrow> map f ys = map g xs"
  by (induction rule: list_all2_induct) auto

lemma list_all2_in_set:
  "list_all2 R xs ys \<Longrightarrow> list_all2 (\<lambda>x y. x \<in> set xs \<and> R x y) xs ys"
  by (auto simp: list_all2_conv_all_nth)

lemma list_all2_sum_eq:
  "list_all2 R xs ys \<Longrightarrow> (\<And>x y. R x y \<Longrightarrow> f y = (g x :: rat)) \<Longrightarrow>
   sum_list (map f ys) = sum_list (map g xs)"
  by (induction rule: list_all2_induct) auto

lemma settled_worklogs:
  "worklogs (fold (settle_worker env request period segs adjs) pl s)
     = map (credit_all env segs adjs pl) (worklogs s)"
  by (simp add: fold_settle_worklogs credit_all_def)

lemma credit_all_fields [simp]:
  "wl_id (credit_all env segs adjs pl w) = wl_id w"
  "worker_id (credit_all env segs adjs pl w) = worker_id w"
  "hourly_rate (credit_all env segs adjs pl w) = hourly_rate w"
  "task_id (credit_all env segs adjs pl w) = task_id w"
  unfolding credit_all_def
  using fold_credit_fields[where A = "\<lambda>e. worker_get adjs (fst e)" and r = "\<lambda>e. uuid4 env (snd e)"
      and S = "\<lambda>e. worker_get segs (fst e)" and pl = pl and w = w]
  by simp_all

lemma credit_all_total:
  "total_remitted_amount (credit_all env segs adjs pl w)
   = total_remitted_amount w
     + sum_list (map (\<lambda>e. sum_list (map seg_price (filter (\<lambda>p. wl_id (snd p) = wl_id w) (worker_get segs (fst e))))
                          + sum_list (map (\<lambda>q. amount (fst q))
                              (filter (\<lambda>q. wl_id (snd q) = wl_id w) (worker_get adjs (fst e))))) pl)"
  unfolding credit_all_def
  by (rule fold_credit_total[where A = "\<lambda>e. worker_get adjs (fst e)" and r = "\<lambda>e. uuid4 env (snd e)"
      and S = "\<lambda>e. worker_get segs (fst e)"])

lemma settled_ids:
  "map seg_id (time_segments (fold (settle_worker env request period segs adjs) pl s))
     = map seg_id (time_segments s)"
  "map adj_id (adjustments (fold (settle_worker env request period segs adjs) pl s))
     = map adj_id (adjustments s)"
  "map wl_id (worklogs (fold (settle_worker env request period segs adjs) pl s))
     = map wl_id (worklogs s)"
proof -
  show "map seg_id (time_segments (fold (settle_worker env request period segs adjs) pl s))
     = map seg_id (time_segments s)"
    by (rule list_all2_map_eq[OF settled_segments_rel]) auto
  show "map adj_id (adjustments (fold (settle_worker env request period segs adjs) pl s))
     = map adj_id (adjustments s)"
    by (rule list_all2_map_eq[OF settled_adjustments_rel]) auto
  show "map wl_id (worklogs (fold (settle_worker env request period segs adjs) pl s))
     = map wl_id (worklogs s)"
    by (simp add: settled_worklogs)
qed

lemma settled_wf:
  "wf_session s \<Longrightarrow> wf_session (fold (settle_worker env request period segs adjs) pl s)"
  by (simp add: wf_session_def settled_ids)

text \<open>With distinct ids, the key of a row is among a worker's keys only if the row is.\<close>

lemma distinct_key_mem:
  assumes "distinct (map key rows)" "x \<in> set rows" "set ys \<subseteq> set rows" "key x \<in> key ` set ys"
  shows "x \<in> set ys"
proof -
  from assms(4) obtain y where y: "y \<in> set ys" "key y = key x" by force
  with assms(3) have "y \<in> set rows" by blast
  with assms(1,2) y(2) have "y = x" by (metis distinct_map inj_onD)
  with y(1) show ?thesis by simp
qed

lemma worker_segments_rows:
  "fst ` set (worker_get (pair_worklogs s key xs) w0) \<subseteq> set xs"
  by (auto simp: worker_get_def pair_worklogs_mem)

lemma marked_segment_selected:
  assumes "wf_session s" "x \<in> set (time_segments s)"
    and "seg_id x \<in> seg_id ` fst ` set (worker_get (pair_worklogs s seg_worklog_id (unremitted_segments s)) w0)"
  shows "seg_status x = ACTIVE \<and> seg_settlement_status x = UNREMITTED
         \<and> (\<exists>wl. get_worklog s (seg_worklog_id x) = Some wl \<and> worker_id wl = w0)"
proof -
  let ?ys = "map fst (worker_get (pair_worklogs s seg_worklog_id (unremitted_segments s)) w0)"
  have sub: "set ?ys \<subseteq> set (time_segments s)"
    using worker_segments_rows[of s seg_worklog_id "unremitted_segments s" w0]
    by (auto simp: unremitted_segments_def)
  have "x \<in> set ?ys"
    by (rule distinct_key_mem[where key = seg_id and rows = "time_segments s"])
       (use assms sub in \<open>auto simp: wf_session_def\<close>)
  then show ?thesis
    by (auto simp: worker_get_def pair_worklogs_mem unremitted_segments_def)
qed

lemma marked_adjustment_selected:
  assumes "wf_session s" "x \<in> set (adjustments s)"
    and "adj_id x \<in> adj_id ` fst ` set (worker_get (pair_worklogs s adj_worklog_id (unremitted_adjustments s)) w0)"
  shows "adj_settlement_status x = UNREMITTED
         \<and> (\<exists>wl. get_worklog s (adj_worklog_id x) = Some wl \<and> worker_id wl = w0)"
proof -
  let ?ys = "map fst (worker_get (pair_worklogs s adj_worklog_id (unremitted_adjustments s)) w0)"
  have sub: "set ?ys \<subseteq> set (adjustments s)"
    using worker_segments_rows[of s adj_worklog_id "unremitted_adjustments s" w0]
    by (auto simp: unremitted_adjustments_def)
  have "x \<in> set ?ys"
    by (rule distinct_key_mem[where key = adj_id and rows = "adjustments s"])
       (use assms sub in \<open>auto simp: wf_session_def\<close>)
  then show ?thesis
    by (auto simp: worker_get_def pair_worklogs_mem unremitted_adjustments_def)
qed

lemma seg_price_settled [simp]:
  "seg_price (set_remitted_seg r x, w) = seg_price (x, w)"
  by (simp add: seg_price_def set_remitted_seg_def)

lemma seg_price_rate: "hourly_rate w' = hourly_rate w \<Longrightarrow> seg_price (x, w') = seg_price (x, w)"
  by (simp add: seg_price_def)

lemma all_worker_ids_distinct: "distinct (all_worker_ids segs adjs)"
  by (simp add: all_worker_ids_def)

lemma planned_iff:
  "w0 \<in> fst ` set (plan (is_due segs adjs) (all_worker_ids segs adjs) k)
   \<longleftrightarrow> w0 \<in> set (all_worker_ids segs adjs) \<and> is_due segs adjs w0"
proof -
  have "fst ` set (plan (is_due segs adjs) (all_worker_ids segs adjs) k)
        = set (map fst (plan (is_due segs adjs) (all_worker_ids segs adjs) k))" by simp
  then show ?thesis unfolding plan_fst by auto
qed

text \<open>
  A worklog whose worker is not in the plan has nothing to pay: its selected units all
  price to 0.
\<close>

lemma unplanned_nothing_due:
  fixes s :: Session
  defines "segs \<equiv> pair_worklogs s seg_worklog_id (unremitted_segments s)"
    and "adjs \<equiv> pair_worklogs s adj_worklog_id (unremitted_adjustments s)"
  assumes wf: "wf_session s" and w: "w \<in> set (worklogs s)"
    and np: "worker_id w \<notin> fst ` set (plan (is_due segs adjs) (all_worker_ids segs adjs) k)"
  shows "x \<in> set (time_segments s) \<Longrightarrow> seg_due UNREMITTED w x = 0"
    and "a \<in> set (adjustments s) \<Longrightarrow> adj_due UNREMITTED w a = 0"
proof -
  note g = get_worklog_row[OF wf w]
  have z: "worker_totals (worker_get segs (worker_id w)) (worker_get adjs (worker_id w)) = Inr (0, 0)"
    if "worker_id w \<in> set (all_worker_ids segs adjs)"
    using np that unfolding planned_iff by (simp add: is_due_def)
  show "seg_due UNREMITTED w x = 0" if x: "x \<in> set (time_segments s)"
  proof (cases "seg_worklog_id x = wl_id w \<and> seg_status x = ACTIVE \<and> seg_settlement_status x = UNREMITTED")
    case True
    with x g have mem: "(x, w) \<in> set segs"
      by (simp add: segs_def pair_worklogs_mem unremitted_segments_def)
    then have "(x, w) \<in> set (worker_get segs (worker_id w))" by (simp add: worker_get_def)
    with worker_totals_zero[OF z[OF worker_in_all_worker_ids(1)[OF mem]]]
    have "seg_price (x, w) = 0" by blast
    then show ?thesis by (simp add: seg_due_def)
  next
    case False
    then show ?thesis by (auto simp: seg_due_def)
  qed
  show "adj_due UNREMITTED w a = 0" if a: "a \<in> set (adjustments s)"
  proof (cases "adj_worklog_id a = wl_id w \<and> adj_settlement_status a = UNREMITTED")
    case True
    with a g have mem: "(a, w) \<in> set adjs"
      by (simp add: adjs_def pair_worklogs_mem unremitted_adjustments_def)
    then have "(a, w) \<in> set (worker_get adjs (worker_id w))" by (simp add: worker_get_def)
    with worker_totals_zero[OF z[OF worker_in_all_worker_ids(2)[OF mem]]]
    have "amount (fst (a, w)) = 0" by blast
    then show ?thesis by (simp add: adj_due_def)
  next
    case False
    then show ?thesis by (auto simp: adj_due_def)
  qed
qed

lemma unplanned_ledger_zero:
  fixes s :: Session
  defines "segs \<equiv> pair_worklogs s seg_worklog_id (unremitted_segments s)"
    and "adjs \<equiv> pair_worklogs s adj_worklog_id (unremitted_adjustments s)"
  assumes wf: "wf_session s" and w: "w \<in> set (worklogs s)"
    and np: "worker_id w \<notin> fst ` set (plan (is_due segs adjs) (all_worker_ids segs adjs) k)"
  shows "ledger_amount UNREMITTED s w = 0"
  unfolding ledger_amount_def
  using sum_list_zero[of "time_segments s" "seg_due UNREMITTED w"]
    sum_list_zero[of "adjustments s" "adj_due UNREMITTED w"]
    unplanned_nothing_due[OF wf w np[unfolded segs_def adjs_def]]
  by simp

text \<open>A COMPLETED run adds to the total of every worklog row what the ledger shows unremitted.\<close>

lemma settled_total:
  fixes s :: Session
  defines "segs \<equiv> pair_worklogs s seg_worklog_id (unremitted_segments s)"
    and "adjs \<equiv> pair_worklogs s adj_worklog_id (unremitted_adjustments s)"
  defines "pl \<equiv> plan (is_due segs adjs) (all_worker_ids segs adjs) 0"
  assumes wf: "wf_session s" and w: "w \<in> set (worklogs s)"
  shows "total_remitted_amount (credit_all env segs adjs pl w)
         = total_remitted_amount w + ledger_amount UNREMITTED s w"
proof -
  have d: "distinct (map fst pl)"
    unfolding pl_def by (rule plan_distinct_fst[OF all_worker_ids_distinct])
  have "sum_list (map (\<lambda>e. sum_list (map seg_price (filter (\<lambda>p. wl_id (snd p) = wl_id w) (worker_get segs (fst e))))
                          + sum_list (map (\<lambda>q. amount (fst q))
                              (filter (\<lambda>q. wl_id (snd q) = wl_id w) (worker_get adjs (fst e))))) pl)
        = sum_list (map (\<lambda>e. if fst e = worker_id w then ledger_amount UNREMITTED s w else 0) pl)"
    unfolding segs_def adjs_def credited_to_row[OF wf w] ..
  also have "\<dots> = (if worker_id w \<in> fst ` set pl then ledger_amount UNREMITTED s w else 0)"
    by (rule sum_list_if_distinct[OF d])
  also have "\<dots> = ledger_amount UNREMITTED s w"
    using unplanned_ledger_zero[OF wf w, of 0] unfolding pl_def segs_def adjs_def by simp
  finally show ?thesis by (simp add: credit_all_total)
qed

text \<open>Row by row, what was unremitted on the ledger of a worklog moves to remitted.\<close>

lemma settled_ledger:
  fixes s :: Session and env :: Env and request :: GenerateRemittancesRequest
    and period :: "date \<times> date"
  defines "segs \<equiv> pair_worklogs s seg_worklog_id (unremitted_segments s)"
    and "adjs \<equiv> pair_worklogs s adj_worklog_id (unremitted_adjustments s)"
  defines "pl \<equiv> plan (is_due segs adjs) (all_worker_ids segs adjs) 0"
  defines "s' \<equiv> fold (settle_worker env request period segs adjs) pl s"
  assumes wf: "wf_session s" and w: "w \<in> set (worklogs s)"
    and w': "wl_id w' = wl_id w" "hourly_rate w' = hourly_rate w"
  shows "ledger_amount REMITTED s' w' = ledger_amount REMITTED s w + ledger_amount UNREMITTED s w"
    and "ledger_amount UNREMITTED s' w' = 0"
proof -
  note g = get_worklog_row[OF wf w]
  have planned: "worker_id w \<in> fst ` set pl"
    if "x \<in> set (time_segments s)" "e \<in> set pl" "seg_worklog_id x = wl_id w"
      "seg_id x \<in> seg_id ` fst ` set (worker_get segs (fst e))" for x e
  proof -
    from marked_segment_selected[OF wf that(1) that(4)[unfolded segs_def]] that(3) g
    have "worker_id w = fst e" by auto
    with that(2) show ?thesis by force
  qed
  have planned_a: "worker_id w \<in> fst ` set pl"
    if "x \<in> set (adjustments s)" "e \<in> set pl" "adj_worklog_id x = wl_id w"
      "adj_id x \<in> adj_id ` fst ` set (worker_get adjs (fst e))" for x e
  proof -
    from marked_adjustment_selected[OF wf that(1) that(4)[unfolded adjs_def]] that(3) g
    have "worker_id w = fst e" by auto
    with that(2) show ?thesis by force
  qed
  have marked: "\<exists>e\<in>set pl. seg_id x \<in> seg_id ` fst ` set (worker_get segs (fst e))"
    if "x \<in> set (time_segments s)" "seg_worklog_id x = wl_id w" "seg_status x = ACTIVE"
      "seg_settlement_status x = UNREMITTED" "worker_id w \<in> fst ` set pl" for x
  proof -
    from that(1-4) g have "(x, w) \<in> set (worker_get segs (worker_id w))"
      by (simp add: segs_def worker_get_def pair_worklogs_mem unremitted_segments_def)
    then have "seg_id x \<in> seg_id ` fst ` set (worker_get segs (worker_id w))" by force
    with that(5) show ?thesis by force
  qed
  have marked_a: "\<exists>e\<in>set pl. adj_id x \<in> adj_id ` fst ` set (worker_get adjs (fst e))"
    if "x \<in> set (adjustments s)" "adj_worklog_id x = wl_id w"
      "adj_settlement_status x = UNREMITTED" "worker_id w \<in> fst ` set pl" for x
  proof -
    from that(1-3) g have "(x, w) \<in> set (worker_get adjs (worker_id w))"
      by (simp add: adjs_def worker_get_def pair_worklogs_mem unremitted_adjustments_def)
    then have "adj_id x \<in> adj_id ` fst ` set (worker_get adjs (worker_id w))" by force
    with that(4) show ?thesis by force
  qed
  let ?R = "\<lambda>x x'. x \<in> set (time_segments s) \<and>
     ((x' = x \<and> (\<forall>e\<in>set pl. seg_id x \<notin> seg_id ` fst ` set (worker_get segs (fst e))))
      \<or> (\<exists>e\<in>set pl. seg_id x \<in> seg_id ` fst ` set (worker_get segs (fst e))
            \<and> x' = set_remitted_seg (uuid4 env (snd e)) x))"
  have rel: "list_all2 ?R (time_segments s) (time_segments s')"
    unfolding s'_def by (rule list_all2_in_set[OF settled_segments_rel])
  have row: "seg_due REMITTED w' x' = seg_due REMITTED w x + seg_due UNREMITTED w x
             \<and> seg_due UNREMITTED w' x' = 0" if "?R x x'" for x x'
  proof -
    from that have x: "x \<in> set (time_segments s)" by simp
    from that consider
      (same) "x' = x" "\<forall>e\<in>set pl. seg_id x \<notin> seg_id ` fst ` set (worker_get segs (fst e))"
      | (mark) e where "e \<in> set pl" "seg_id x \<in> seg_id ` fst ` set (worker_get segs (fst e))"
          "x' = set_remitted_seg (uuid4 env (snd e)) x"
      by blast
    then show ?thesis
    proof cases
      case same
      show ?thesis
      proof (cases "seg_worklog_id x = wl_id w \<and> seg_status x = ACTIVE \<and> seg_settlement_status x = UNREMITTED")
        case True
        with marked[OF x] same(2) have "worker_id w \<notin> fst ` set pl" by blast
        from unplanned_nothing_due(1)[OF wf w this[unfolded pl_def segs_def adjs_def] x]
        have "seg_due UNREMITTED w x = 0" .
        with True same(1) w' show ?thesis
          by (simp add: seg_due_def seg_price_rate[OF w'(2)])
      next
        case False
        with same(1) w' show ?thesis
          by (cases "seg_settlement_status x") (auto simp: seg_due_def seg_price_rate[OF w'(2)])
      qed
    next
      case mark
      from marked_segment_selected[OF wf x mark(2)[unfolded segs_def]]
      have "seg_status x = ACTIVE" "seg_settlement_status x = UNREMITTED" by simp_all
      with mark(3) w' show ?thesis
        by (simp add: seg_due_def seg_price_rate[OF w'(2)])
    qed
  qed
  let ?Ra = "\<lambda>x x'. x \<in> set (adjustments s) \<and>
     ((x' = x \<and> (\<forall>e\<in>set pl. adj_id x \<notin> adj_id ` fst ` set (worker_get adjs (fst e))))
      \<or> (\<exists>e\<in>set pl. adj_id x \<in> adj_id ` fst ` set (worker_get adjs (fst e))
            \<and> x' = set_remitted_adj (uuid4 env (snd e)) x))"
  have rela: "list_all2 ?Ra (adjustments s) (adjustments s')"
    unfolding s'_def by (rule list_all2_in_set[OF settled_adjustments_rel])
  have rowa: "adj_due REMITTED w' x' = adj_due REMITTED w x + adj_due UNREMITTED w x
             \<and> adj_due UNREMITTED w' x' = 0" if "?Ra x x'" for x x'
  proof -
    from that have x: "x \<in> set (adjustments s)" by simp
    from that consider
      (same) "x' = x" "\<forall>e\<in>set pl. adj_id x \<notin> adj_id ` fst ` set (worker_get adjs (fst e))"
      | (mark) e where "e \<in> set pl" "adj_id x \<in> adj_id ` fst ` set (worker_get adjs (fst e))"
          "x' = set_remitted_adj (uuid4 env (snd e)) x"
      by blast
    then show ?thesis
    proof cases
      case same
      show ?thesis
      proof (cases "adj_worklog_id x = wl_id w \<and> adj_settlement_status x = UNREMITTED")
        case True
        with marked_a[OF x] same(2) have "worker_id w \<notin> fst ` set pl" by blast
        from unplanned_nothing_due(2)[OF wf w this[unfolded pl_def segs_def adjs_def] x]
        have "adj_due UNREMITTED w x = 0" .
        with True same(1) w' show ?thesis
          by (simp add: adj_due_def)
      next
        case False
        with same(1) w' show ?thesis
          by (cases "adj_settlement_status x") (auto simp: adj_due_def)
      qed
    next
      case mark
      from marked_adjustment_selected[OF wf x mark(2)[unfolded adjs_def]]
      have "adj_settlement_status x = UNREMITTED" by simp
      with mark(3) w' show ?thesis
        by (simp add: adj_due_def)
    qed
  qed
  have s1: "sum_list (map (seg_due REMITTED w') (time_segments s'))
      = sum_list (map (\<lambda>x. seg_due REMITTED w x + seg_due UNREMITTED w x) (time_segments s))"
    by (rule list_all2_sum_eq[OF rel]) (use row in blast)
  have s2: "sum_list (map (seg_due UNREMITTED w') (time_segments s')) = sum_list (map (\<lambda>x. 0) (time_segments s))"
    by (rule list_all2_sum_eq[OF rel]) (use row in blast)
  have a1: "sum_list (map (adj_due REMITTED w') (adjustments s'))
      = sum_list (map (\<lambda>x. adj_due REMITTED w x + adj_due UNREMITTED w x) (adjustments s))"
    by (rule list_all2_sum_eq[OF rela]) (use rowa in blast)
  have a2: "sum_list (map (adj_due UNREMITTED w') (adjustments s')) = sum_list (map (\<lambda>x. 0) (adjustments s))"
    by (rule list_all2_sum_eq[OF rela]) (use rowa in blast)
  show "ledger_amount REMITTED s' w' = ledger_amount REMITTED s w + ledger_amount UNREMITTED s w"
    unfolding ledger_amount_def s1 a1 by (simp add: sum_list_addf)
  show "ledger_amount UNREMITTED s' w' = 0"
    unfolding ledger_amount_def s2 a2 by simp
qed

section \<open>Later runs\<close>

lemma ledger_amount_remittances [simp]:
  "ledger_amount st (s\<lparr>remittances := r\<rparr>) w = ledger_amount st s w"
  by (simp add: ledger_amount_def)

lemma step_ok_refl: "step_ok s s"
  by (simp add: step_ok_def list_all2_same)

lemma step_ok_remittances: "step_ok s (s\<lparr>remittances := r\<rparr>)"
  by (simp add: step_ok_def list_all2_same)

lemma list_all2_map_self:
  "(\<And>x. x \<in> set xs \<Longrightarrow> P x (f x)) \<Longrightarrow> list_all2 P xs (map f xs)"
  by (induction xs) auto

lemma step_ok_wf:
  assumes "step_ok s s'" "wf_session s"
  shows "wf_session s'"
proof -
  from assms(1) have
    "map seg_id (time_segments s') = map seg_id (time_segments s)"
    "map adj_id (adjustments s') = map adj_id (adjustments s)"
    "map wl_id (worklogs s') = map wl_id (worklogs s)"
    unfolding step_ok_def by (auto intro: list_all2_map_eq)
  with assms(2) show ?thesis by (simp add: wf_session_def)
qed

lemma step_ok_completed:
  fixes s :: Session and env :: Env and request :: GenerateRemittancesRequest
    and period :: "date \<times> date"
  defines "segs \<equiv> pair_worklogs s seg_worklog_id (unremitted_segments s)"
    and "adjs \<equiv> pair_worklogs s adj_worklog_id (unremitted_adjustments s)"
  defines "pl \<equiv> plan (is_due segs adjs) (all_worker_ids segs adjs) 0"
  assumes wf: "wf_session s"
  shows "step_ok s (fold (settle_worker env request period segs adjs) pl s)"
proof -
  let ?s' = "fold (settle_worker env request period segs adjs) pl s"
  have seg: "list_all2 (\<lambda>x x'. seg_id x' = seg_id x \<and> (seg_settlement_status x = REMITTED \<longrightarrow> x' = x))
       (time_segments s) (time_segments ?s')"
  proof (rule list_all2_mono[OF list_all2_in_set[OF settled_segments_rel]])
    fix x x'
    assume h: "x \<in> set (time_segments s) \<and>
     ((x' = x \<and> (\<forall>e\<in>set pl. seg_id x \<notin> seg_id ` fst ` set (worker_get segs (fst e))))
      \<or> (\<exists>e\<in>set pl. seg_id x \<in> seg_id ` fst ` set (worker_get segs (fst e))
            \<and> x' = set_remitted_seg (uuid4 env (snd e)) x))"
    then have x: "x \<in> set (time_segments s)" by simp
    from h show "seg_id x' = seg_id x \<and> (seg_settlement_status x = REMITTED \<longrightarrow> x' = x)"
      using marked_segment_selected[OF wf x] unfolding segs_def by fastforce
  qed
  have adj: "list_all2 (\<lambda>x x'. adj_id x' = adj_id x \<and> (adj_settlement_status x = REMITTED \<longrightarrow> x' = x))
         (adjustments s) (adjustments ?s')"
  proof (rule list_all2_mono[OF list_all2_in_set[OF settled_adjustments_rel]])
    fix x x'
    assume h: "x \<in> set (adjustments s) \<and>
     ((x' = x \<and> (\<forall>e\<in>set pl. adj_id x \<notin> adj_id ` fst ` set (worker_get adjs (fst e))))
      \<or> (\<exists>e\<in>set pl. adj_id x \<in> adj_id ` fst ` set (worker_get adjs (fst e))
            \<and> x' = set_remitted_adj (uuid4 env (snd e)) x))"
    then have x: "x \<in> set (adjustments s)" by simp
    from h show "adj_id x' = adj_id x \<and> (adj_settlement_status x = REMITTED \<longrightarrow> x' = x)"
      using marked_adjustment_selected[OF wf x] unfolding adjs_def by fastforce
  qed
  have wl: "list_all2 (\<lambda>w w'. wl_id w' = wl_id w \<and> hourly_rate w' = hourly_rate w
                    \<and> worker_id w' = worker_id w
                    \<and> total_remitted_amount w' - ledger_amount REMITTED ?s' w'
                        = total_remitted_amount w - ledger_amount REMITTED s w)
         (worklogs s) (worklogs ?s')"
    unfolding settled_worklogs
  proof (rule list_all2_map_self)
    fix w
    assume w: "w \<in> set (worklogs s)"
    let ?w' = "credit_all env segs adjs pl w"
    have t: "total_remitted_amount ?w' = total_remitted_amount w + ledger_amount UNREMITTED s w"
      unfolding segs_def adjs_def pl_def by (rule settled_total[OF wf w])
    have l: "ledger_amount REMITTED ?s' ?w' = ledger_amount REMITTED s w + ledger_amount UNREMITTED s w"
      unfolding segs_def adjs_def pl_def by (rule settled_ledger(1)[OF wf w]) simp_all
    show "wl_id ?w' = wl_id w \<and> hourly_rate ?w' = hourly_rate w \<and> worker_id ?w' = worker_id w
          \<and> total_remitted_amount ?w' - ledger_amount REMITTED ?s' ?w'
            = total_remitted_amount w - ledger_amount REMITTED s w"
      unfolding t l by simp
  qed
  from seg adj wl show ?thesis by (simp add: step_ok_def)
qed

lemma generate_step_ok:
  assumes "generate_remittances env s request = Inr (s', resp)" "wf_session s"
  shows "step_ok s s'"
proof (cases "dry_run request")
  case True
  with assms(1) have "s' = s" by (auto elim: generate_cases)
  then show ?thesis by (simp add: step_ok_refl)
next
  case real: False
  show ?thesis
  proof (cases "outcome_status request = COMPLETED")
    case True
    from assms(1) real True obtain period where
      "s' = fold (settle_worker env request period
                 (pair_worklogs s seg_worklog_id (unremitted_segments s))
                 (pair_worklogs s adj_worklog_id (unremitted_adjustments s)))
            (plan (is_due (pair_worklogs s seg_worklog_id (unremitted_segments s))
                          (pair_worklogs s adj_worklog_id (unremitted_adjustments s)))
               (all_worker_ids (pair_worklogs s seg_worklog_id (unremitted_segments s))
                               (pair_worklogs s adj_worklog_id (unremitted_adjustments s))) 0)
            s"
      by (rule generate_completed)
    then show ?thesis using step_ok_completed[OF assms(2)] by simp
  next
    case False
    from assms(1) obtain period b where
      rb: "run_batch env s request period = Inr b" and s': "s' = (if dry_run request then s else b_session b)"
      by (rule generate_cases)
    from process_workers_not_completed[OF rb[unfolded run_batch_def Let_def] real False]
    obtain news where "b_session b = s\<lparr>remittances := remittances s @ news\<rparr>" by auto
    with s' real show ?thesis by (simp add: step_ok_remittances)
  qed
qed

lemma step_ok_trans:
  assumes "step_ok s s'" "step_ok s' s''"
  shows "step_ok s s''"
proof -
  from assms have a:
    "list_all2 (\<lambda>x x'. seg_id x' = seg_id x \<and> (seg_settlement_status x = REMITTED \<longrightarrow> x' = x))
       (time_segments s) (time_segments s')"
    "list_all2 (\<lambda>x x'. seg_id x' = seg_id x \<and> (seg_settlement_status x = REMITTED \<longrightarrow> x' = x))
       (time_segments s') (time_segments s'')"
    "list_all2 (\<lambda>x x'. adj_id x' = adj_id x \<and> (adj_settlement_status x = REMITTED \<longrightarrow> x' = x))
         (adjustments s) (adjustments s')"
    "list_all2 (\<lambda>x x'. adj_id x' = adj_id x \<and> (adj_settlement_status x = REMITTED \<longrightarrow> x' = x))
         (adjustments s') (adjustments s'')"
    "list_all2 (\<lambda>w w'. wl_id w' = wl_id w \<and> hourly_rate w' = hourly_rate w
                    \<and> worker_id w' = worker_id w
                    \<and> total_remitted_amount w' - ledger_amount REMITTED s' w'
                        = total_remitted_amount w - ledger_amount REMITTED s w)
         (worklogs s) (worklogs s')"
    "list_all2 (\<lambda>w w'. wl_id w' = wl_id w \<and> hourly_rate w' = hourly_rate w
                    \<and> worker_id w' = worker_id w
                    \<and> total_remitted_amount w' - ledger_amount REMITTED s'' w'
                        = total_remitted_amount w - ledger_amount REMITTED s' w)
         (worklogs s') (worklogs s'')"
    by (simp_all add: step_ok_def)
  have 1: "list_all2 (\<lambda>x x'. seg_id x' = seg_id x \<and> (seg_settlement_status x = REMITTED \<longrightarrow> x' = x))
       (time_segments s) (time_segments s'')"
    by (rule list_all2_trans[OF _ a(1) a(2)]) auto
  have 2: "list_all2 (\<lambda>x x'. adj_id x' = adj_id x \<and> (adj_settlement_status x = REMITTED \<longrightarrow> x' = x))
         (adjustments s) (adjustments s'')"
    by (rule list_all2_trans[OF _ a(3) a(4)]) auto
  have 3: "list_all2 (\<lambda>w w'. wl_id w' = wl_id w \<and> hourly_rate w' = hourly_rate w
                    \<and> worker_id w' = worker_id w
                    \<and> total_remitted_amount w' - ledger_amount REMITTED s'' w'
                        = total_remitted_amount w - ledger_amount REMITTED s w)
         (worklogs s) (worklogs s'')"
    by (rule list_all2_trans[OF _ a(5) a(6)]) auto
  from 1 2 3 show ?thesis by (simp add: step_ok_def)
qed

lemma run_calls_step_ok:
  "wf_session s \<Longrightarrow> step_ok s (run_calls s calls)"
proof (induction calls arbitrary: s)
  case Nil
  then show ?case by (simp add: step_ok_refl)
next
  case (Cons c cs)
  show ?case
  proof (cases "generate_remittances (fst c) s (snd c)")
    case (Inl e)
    with Cons show ?thesis by simp
  next
    case (Inr sr)
    obtain s' r where sr: "sr = (s', r)" by (cases sr)
    from generate_step_ok[OF Inr[unfolded sr] Cons.prems] have 1: "step_ok s s'" .
    from Cons.IH[OF step_ok_wf[OF 1 Cons.prems]] have "step_ok s' (run_calls s' cs)" .
    from step_ok_trans[OF 1 this] Inr sr show ?thesis by simp
  qed
qed

section \<open>What a remittance pays\<close>



lemma distinct_map_eq:
  "distinct (map f xs) \<Longrightarrow> x \<in> set xs \<Longrightarrow> y \<in> set xs \<Longrightarrow> f x = f y \<Longrightarrow> x = y"
proof -
  assume "distinct (map f xs)" "x \<in> set xs" "y \<in> set xs" "f x = f y"
  then have "inj_on f (set xs)" by (simp add: distinct_map)
  then show ?thesis using \<open>x \<in> set xs\<close> \<open>y \<in> set xs\<close> \<open>f x = f y\<close> by (simp add: inj_on_def)
qed

lemma plan_entry_fst_snd:
  assumes "distinct ws" "e \<in> set (plan due ws k)" "e' \<in> set (plan due ws k)"
  shows "fst e = fst e' \<longleftrightarrow> snd e = snd e'"
proof
  assume "fst e = fst e'"
  from distinct_map_eq[OF plan_distinct_fst[OF assms(1)] assms(2,3) this] show "snd e = snd e'" by simp
next
  assume "snd e = snd e'"
  from distinct_map_eq[OF plan_distinct_snd assms(2,3) this] show "fst e = fst e'" by simp
qed




lemma unit_price_remittances [simp]:
  "unit_price (s\<lparr>remittances := r\<rparr>) x = unit_price s x"
  by (simp add: unit_price_def get_worklog_def)

lemma seg_settled_remittances [simp]:
  "seg_settled (s\<lparr>remittances := r\<rparr>) k = seg_settled s k"
  by (rule ext) (simp add: seg_settled_def)

lemma settled_sum_remittances [simp]:
  "settled_sum (s\<lparr>remittances := r\<rparr>) k = settled_sum s k"
  by (simp add: settled_sum_def)










section \<open>Settled once\<close>

lemma list_all2_mem1:
  "list_all2 P xs ys \<Longrightarrow> x \<in> set xs \<Longrightarrow> \<exists>y\<in>set ys. P x y"
  by (induction rule: list_all2_induct) auto

lemma step_ok_persist:
  assumes "step_ok s s'" "wf_session s"
  shows "x \<in> set (time_segments s) \<Longrightarrow> seg_settlement_status x = REMITTED \<Longrightarrow>
           x \<in> set (time_segments s') \<and> (\<forall>y\<in>set (time_segments s'). seg_id y = seg_id x \<longrightarrow> y = x)
           \<and> x \<notin> fst ` set (pair_worklogs s' seg_worklog_id (unremitted_segments s'))"
    and "a \<in> set (adjustments s) \<Longrightarrow> adj_settlement_status a = REMITTED \<Longrightarrow>
           a \<in> set (adjustments s') \<and> (\<forall>y\<in>set (adjustments s'). adj_id y = adj_id a \<longrightarrow> y = a)
           \<and> a \<notin> fst ` set (pair_worklogs s' adj_worklog_id (unremitted_adjustments s'))"
proof -
  have wf': "wf_session s'" by (rule step_ok_wf[OF assms])
  show "x \<in> set (time_segments s') \<and> (\<forall>y\<in>set (time_segments s'). seg_id y = seg_id x \<longrightarrow> y = x)
           \<and> x \<notin> fst ` set (pair_worklogs s' seg_worklog_id (unremitted_segments s'))"
    if x: "x \<in> set (time_segments s)" "seg_settlement_status x = REMITTED"
  proof -
    from assms(1) have "list_all2 (\<lambda>x x'. seg_id x' = seg_id x \<and> (seg_settlement_status x = REMITTED \<longrightarrow> x' = x))
       (time_segments s) (time_segments s')" by (simp add: step_ok_def)
    from list_all2_mem1[OF this x(1)] x(2) have 1: "x \<in> set (time_segments s')" by auto
    have 2: "y = x" if "y \<in> set (time_segments s')" "seg_id y = seg_id x" for y
      using distinct_map_eq[of seg_id "time_segments s'" y x] wf' that 1 by (simp add: wf_session_def)
    have 3: "x \<notin> fst ` set (pair_worklogs s' seg_worklog_id (unremitted_segments s'))"
      using x(2) by (auto simp: pair_worklogs_mem unremitted_segments_def)
    from 1 2 3 show ?thesis by blast
  qed
  show "a \<in> set (adjustments s') \<and> (\<forall>y\<in>set (adjustments s'). adj_id y = adj_id a \<longrightarrow> y = a)
           \<and> a \<notin> fst ` set (pair_worklogs s' adj_worklog_id (unremitted_adjustments s'))"
    if a: "a \<in> set (adjustments s)" "adj_settlement_status a = REMITTED"
  proof -
    from assms(1) have "list_all2 (\<lambda>x x'. adj_id x' = adj_id x \<and> (adj_settlement_status x = REMITTED \<longrightarrow> x' = x))
       (adjustments s) (adjustments s')" by (simp add: step_ok_def)
    from list_all2_mem1[OF this a(1)] a(2) have 1: "a \<in> set (adjustments s')" by auto
    have 2: "y = a" if "y \<in> set (adjustments s')" "adj_id y = adj_id a" for y
      using distinct_map_eq[of adj_id "adjustments s'" y a] wf' that 1 by (simp add: wf_session_def)
    have 3: "a \<notin> fst ` set (pair_worklogs s' adj_worklog_id (unremitted_adjustments s'))"
      using a(2) by (auto simp: pair_worklogs_mem unremitted_adjustments_def)
    from 1 2 3 show ?thesis by blast
  qed
qed

text \<open>A COMPLETED run marks every selected unit of a due worker and links it to the worker's new row.\<close>

lemma completed_marks:
  fixes s :: Session and env :: Env and request :: GenerateRemittancesRequest
    and period :: "date \<times> date"
  defines "segs \<equiv> pair_worklogs s seg_worklog_id (unremitted_segments s)"
    and "adjs \<equiv> pair_worklogs s adj_worklog_id (unremitted_adjustments s)"
  defines "pl \<equiv> plan (is_due segs adjs) (all_worker_ids segs adjs) 0"
  defines "s' \<equiv> fold (settle_worker env request period segs adjs) pl s"
  assumes wf: "wf_session s" and out: "outcome_status request = COMPLETED"
  shows "p \<in> set segs \<Longrightarrow> is_due segs adjs (worker_id (snd p)) \<Longrightarrow>
           \<exists>R\<in>set (remittances s'). rem_worker_id R = worker_id (snd p) \<and> rem_status R = COMPLETED
              \<and> set_remitted_seg (rem_id R) (fst p) \<in> set (time_segments s')"
    and "q \<in> set adjs \<Longrightarrow> is_due segs adjs (worker_id (snd q)) \<Longrightarrow>
           \<exists>R\<in>set (remittances s'). rem_worker_id R = worker_id (snd q) \<and> rem_status R = COMPLETED
              \<and> set_remitted_adj (rem_id R) (fst q) \<in> set (adjustments s')"
proof -
  have row: "\<exists>R\<in>set (remittances s'). rem_worker_id R = w \<and> rem_status R = COMPLETED \<and> rem_id R = uuid4 env d"
    if "(w, d) \<in> set pl" for w d
  proof -
    let ?R = "new_remittance env request period w d
                (fst (worker_gross_net segs adjs w)) (snd (worker_gross_net segs adjs w))"
    have "?R \<in> set (remittances s')"
      unfolding s'_def fold_settle_remittances using that by force
    then show ?thesis using out by (intro bexI[of _ ?R]) simp_all
  qed
  show "\<exists>R\<in>set (remittances s'). rem_worker_id R = worker_id (snd p) \<and> rem_status R = COMPLETED
              \<and> set_remitted_seg (rem_id R) (fst p) \<in> set (time_segments s')"
    if p: "p \<in> set segs" and due: "is_due segs adjs (worker_id (snd p))"
  proof -
    obtain x wl where pe: "p = (x, wl)" by (cases p)
    from p pe have x: "x \<in> set (time_segments s)" and g: "get_worklog s (seg_worklog_id x) = Some wl"
      by (auto simp: segs_def pair_worklogs_mem unremitted_segments_def)
    from p pe have mem: "seg_id x \<in> seg_id ` fst ` set (worker_get segs (worker_id wl))"
      by (force simp: worker_get_def)
    from due_in_plan[where due = "is_due segs adjs" and k = 0,
        OF worker_in_all_worker_ids(1)[OF p[unfolded pe], of adjs]] due pe
    obtain d where e: "(worker_id wl, d) \<in> set pl" unfolding pl_def by auto
    from list_all2_mem1[OF settled_segments_rel[where s = s and pl = pl and segs = segs
          and adjs = adjs and env = env and request = request and period = period] x]
    obtain x' where x': "x' \<in> set (time_segments s')"
      and r: "(x' = x \<and> (\<forall>e\<in>set pl. seg_id x \<notin> seg_id ` fst ` set (worker_get segs (fst e))))
              \<or> (\<exists>e\<in>set pl. seg_id x \<in> seg_id ` fst ` set (worker_get segs (fst e))
                    \<and> x' = set_remitted_seg (uuid4 env (snd e)) x)"
      unfolding s'_def by blast
    from r have "x' = set_remitted_seg (uuid4 env d) x"
    proof
      assume "x' = x \<and> (\<forall>e\<in>set pl. seg_id x \<notin> seg_id ` fst ` set (worker_get segs (fst e)))"
      then have "seg_id x \<notin> seg_id ` fst ` set (worker_get segs (fst (worker_id wl, d)))"
        using e by blast
      with mem show ?thesis by simp
    next
      assume "\<exists>e\<in>set pl. seg_id x \<in> seg_id ` fst ` set (worker_get segs (fst e))
                    \<and> x' = set_remitted_seg (uuid4 env (snd e)) x"
      then obtain e' where e': "e' \<in> set pl" "seg_id x \<in> seg_id ` fst ` set (worker_get segs (fst e'))"
        "x' = set_remitted_seg (uuid4 env (snd e')) x" by blast
      from marked_segment_selected[OF wf x e'(2)[unfolded segs_def]] g
      have "fst e' = fst (worker_id wl, d)" by auto
      with plan_entry_fst_snd[OF all_worker_ids_distinct e'(1)[unfolded pl_def] e[unfolded pl_def]]
      have "snd e' = d" by simp
      with e'(3) show ?thesis by simp
    qed
    with x' row[OF e] show ?thesis by (auto simp: pe)
  qed
  show "\<exists>R\<in>set (remittances s'). rem_worker_id R = worker_id (snd q) \<and> rem_status R = COMPLETED
              \<and> set_remitted_adj (rem_id R) (fst q) \<in> set (adjustments s')"
    if q: "q \<in> set adjs" and due: "is_due segs adjs (worker_id (snd q))"
  proof -
    obtain x wl where qe: "q = (x, wl)" by (cases q)
    from q qe have x: "x \<in> set (adjustments s)" and g: "get_worklog s (adj_worklog_id x) = Some wl"
      by (auto simp: adjs_def pair_worklogs_mem unremitted_adjustments_def)
    from q qe have mem: "adj_id x \<in> adj_id ` fst ` set (worker_get adjs (worker_id wl))"
      by (force simp: worker_get_def)
    from due_in_plan[where due = "is_due segs adjs" and k = 0,
        OF worker_in_all_worker_ids(2)[OF q[unfolded qe], of segs]] due qe
    obtain d where e: "(worker_id wl, d) \<in> set pl" unfolding pl_def by auto
    from list_all2_mem1[OF settled_adjustments_rel[where s = s and pl = pl and segs = segs
          and adjs = adjs and env = env and request = request and period = period] x]
    obtain x' where x': "x' \<in> set (adjustments s')"
      and r: "(x' = x \<and> (\<forall>e\<in>set pl. adj_id x \<notin> adj_id ` fst ` set (worker_get adjs (fst e))))
              \<or> (\<exists>e\<in>set pl. adj_id x \<in> adj_id ` fst ` set (worker_get adjs (fst e))
                    \<and> x' = set_remitted_adj (uuid4 env (snd e)) x)"
      unfolding s'_def by blast
    from r have "x' = set_remitted_adj (uuid4 env d) x"
    proof
      assume "x' = x \<and> (\<forall>e\<in>set pl. adj_id x \<notin> adj_id ` fst ` set (worker_get adjs (fst e)))"
      then have "adj_id x \<notin> adj_id ` fst ` set (worker_get adjs (fst (worker_id wl, d)))"
        using e by blast
      with mem show ?thesis by simp
    next
      assume "\<exists>e\<in>set pl. adj_id x \<in> adj_id ` fst ` set (worker_get adjs (fst e))
                    \<and> x' = set_remitted_adj (uuid4 env (snd e)) x"
      then obtain e' where e': "e' \<in> set pl" "adj_id x \<in> adj_id ` fst ` set (worker_get adjs (fst e'))"
        "x' = set_remitted_adj (uuid4 env (snd e')) x" by blast
      from marked_adjustment_selected[OF wf x e'(2)[unfolded adjs_def]] g
      have "fst e' = fst (worker_id wl, d)" by auto
      with plan_entry_fst_snd[OF all_worker_ids_distinct e'(1)[unfolded pl_def] e[unfolded pl_def]]
      have "snd e' = d" by simp
      with e'(3) show ?thesis by simp
    qed
    with x' row[OF e] show ?thesis by (auto simp: qe)
  qed
qed

text \<open>
  C1. Let a COMPLETED call that is not a dry run take a session with unique primary keys
  to \<open>s1\<close>. Every selected unit of a worker that was not skipped is in \<open>s1\<close> REMITTED and
  linked to a COMPLETED remittance of that worker. Every unit that is REMITTED in \<open>s1\<close>
  is, after any list of later calls, dry runs or not, in its table unchanged, the only
  row with its id, and not among the units such a call selects. And the running total
  of every worklog has grown from the first session by exactly what its ledger shows as
  newly remitted: each priced amount is counted once.
\<close>

theorem settled_exactly_once:
  fixes s0 :: Session
  defines "segs \<equiv> pair_worklogs s0 seg_worklog_id (unremitted_segments s0)"
    and "adjs \<equiv> pair_worklogs s0 adj_worklog_id (unremitted_adjustments s0)"
  assumes "wf_session s0"
    and "generate_remittances env s0 request = Inr (s1, r1)"
    and "\<not> dry_run request" and "outcome_status request = COMPLETED"
  shows "(\<forall>p\<in>set segs. is_due segs adjs (worker_id (snd p)) \<longrightarrow>
            (\<exists>R\<in>set (remittances s1). rem_worker_id R = worker_id (snd p) \<and> rem_status R = COMPLETED
                \<and> set_remitted_seg (rem_id R) (fst p) \<in> set (time_segments s1)))
         \<and> (\<forall>q\<in>set adjs. is_due segs adjs (worker_id (snd q)) \<longrightarrow>
            (\<exists>R\<in>set (remittances s1). rem_worker_id R = worker_id (snd q) \<and> rem_status R = COMPLETED
                \<and> set_remitted_adj (rem_id R) (fst q) \<in> set (adjustments s1)))
         \<and> (\<forall>x\<in>set (time_segments s1). seg_settlement_status x = REMITTED \<longrightarrow>
               x \<in> set (time_segments (run_calls s1 calls))
               \<and> (\<forall>y\<in>set (time_segments (run_calls s1 calls)). seg_id y = seg_id x \<longrightarrow> y = x)
               \<and> x \<notin> fst ` set (pair_worklogs (run_calls s1 calls) seg_worklog_id
                                    (unremitted_segments (run_calls s1 calls))))
         \<and> (\<forall>a\<in>set (adjustments s1). adj_settlement_status a = REMITTED \<longrightarrow>
               a \<in> set (adjustments (run_calls s1 calls))
               \<and> (\<forall>y\<in>set (adjustments (run_calls s1 calls)). adj_id y = adj_id a \<longrightarrow> y = a)
               \<and> a \<notin> fst ` set (pair_worklogs (run_calls s1 calls) adj_worklog_id
                                    (unremitted_adjustments (run_calls s1 calls))))
         \<and> list_all2
              (\<lambda>w w'. wl_id w' = wl_id w
                 \<and> total_remitted_amount w'
                     = total_remitted_amount w
                       + (ledger_amount REMITTED (run_calls s1 calls) w' - ledger_amount REMITTED s0 w))
              (worklogs s0) (worklogs (run_calls s1 calls))"
proof -
  have st1: "step_ok s0 s1" by (rule generate_step_ok[OF assms(4,3)])
  have wf1: "wf_session s1" by (rule step_ok_wf[OF st1 assms(3)])
  have st2: "step_ok s1 (run_calls s1 calls)" by (rule run_calls_step_ok[OF wf1])
  have st: "step_ok s0 (run_calls s1 calls)" by (rule step_ok_trans[OF st1 st2])
  from assms(4,5,6) obtain period where
    s1: "s1 = fold (settle_worker env request period segs adjs)
            (plan (is_due segs adjs) (all_worker_ids segs adjs) 0) s0"
    unfolding segs_def adjs_def by (rule generate_completed)
  note marks = completed_marks[OF assms(3,6), of _ env period, folded segs_def adjs_def, folded s1]
  have acc: "list_all2
              (\<lambda>w w'. wl_id w' = wl_id w
                 \<and> total_remitted_amount w'
                     = total_remitted_amount w
                       + (ledger_amount REMITTED (run_calls s1 calls) w' - ledger_amount REMITTED s0 w))
              (worklogs s0) (worklogs (run_calls s1 calls))"
  proof (rule list_all2_mono)
    show "list_all2 (\<lambda>w w'. wl_id w' = wl_id w \<and> hourly_rate w' = hourly_rate w
                    \<and> worker_id w' = worker_id w
                    \<and> total_remitted_amount w' - ledger_amount REMITTED (run_calls s1 calls) w'
                        = total_remitted_amount w - ledger_amount REMITTED s0 w)
         (worklogs s0) (worklogs (run_calls s1 calls))"
      using st by (simp add: step_ok_def)
  next
    fix w w'
    assume "wl_id w' = wl_id w \<and> hourly_rate w' = hourly_rate w
                    \<and> worker_id w' = worker_id w
                    \<and> total_remitted_amount w' - ledger_amount REMITTED (run_calls s1 calls) w'
                        = total_remitted_amount w - ledger_amount REMITTED s0 w"
    then show "wl_id w' = wl_id w
                 \<and> total_remitted_amount w'
                     = total_remitted_amount w
                       + (ledger_amount REMITTED (run_calls s1 calls) w' - ledger_amount REMITTED s0 w)"
      by (simp add: algebra_simps)
  qed
  show ?thesis
    using marks step_ok_persist[OF st2 wf1] acc by blast
qed

theorem settled_exactly_once_witness:
  "\<exists>r1. generate_remittances env0 demo_session request0 = Inr (demo_paid, r1)
      \<and> map seg_settlement_status (time_segments demo_paid) = [REMITTED, REMITTED]
      \<and> map seg_remittance_id (time_segments demo_paid) = [Some 100, Some 101]
      \<and> (\<forall>x\<in>set (time_segments demo_paid).
            x \<in> set (time_segments (run_calls demo_paid [(env1, request0)]))
            \<and> x \<notin> fst ` set (pair_worklogs (run_calls demo_paid [(env1, request0)]) seg_worklog_id
                                 (unremitted_segments (run_calls demo_paid [(env1, request0)]))))
      \<and> map total_remitted_amount (worklogs (run_calls demo_paid [(env1, request0)]))
          = [40, - (497 / 100)]"
proof -
  from demo_paid_run obtain r1 where
    g: "generate_remittances env0 demo_session request0 = Inr (demo_paid, r1)"
    by (auto split: sum.splits)
  have h: "\<not> dry_run request0" "outcome_status request0 = COMPLETED"
    by (simp_all add: request0_def outcome_status_def)
  have r: "\<forall>x\<in>set (time_segments demo_paid). seg_settlement_status x = REMITTED"
    by (simp add: demo_paid_def)
  have t: "map seg_settlement_status (time_segments demo_paid) = [REMITTED, REMITTED]"
    "map seg_remittance_id (time_segments demo_paid) = [Some 100, Some 101]"
    "map total_remitted_amount (worklogs (run_calls demo_paid [(env1, request0)])) = [40, - (497 / 100)]"
    unfolding demo_rerun by (simp_all add: demo_paid_def)
  from settled_exactly_once[OF wf_demo_session g h, of "[(env1, request0)]"]
  have "\<forall>x\<in>set (time_segments demo_paid). seg_settlement_status x = REMITTED \<longrightarrow>
               x \<in> set (time_segments (run_calls demo_paid [(env1, request0)]))
               \<and> (\<forall>y\<in>set (time_segments (run_calls demo_paid [(env1, request0)])). seg_id y = seg_id x \<longrightarrow> y = x)
               \<and> x \<notin> fst ` set (pair_worklogs (run_calls demo_paid [(env1, request0)]) seg_worklog_id
                                    (unremitted_segments (run_calls demo_paid [(env1, request0)])))"
    by (rule conjunct2[THEN conjunct2, THEN conjunct1])
  with r have "\<forall>x\<in>set (time_segments demo_paid).
            x \<in> set (time_segments (run_calls demo_paid [(env1, request0)]))
            \<and> x \<notin> fst ` set (pair_worklogs (run_calls demo_paid [(env1, request0)]) seg_worklog_id
                                 (unremitted_segments (run_calls demo_paid [(env1, request0)])))"
    by blast
  with g t show ?thesis by (intro exI[of _ r1] conjI)
qed

section \<open>Adjustments after settlement\<close>

lemma ledger_segments_closed:
  "ledger_segments (hourly_rate w) xs (r, u) = Inr (r', u') \<Longrightarrow>
   r' = r + sum_list (map (\<lambda>x. if seg_status x = ACTIVE \<and> seg_settlement_status x = REMITTED
                                then seg_price (x, w) else 0) xs)
   \<and> u' = u + sum_list (map (\<lambda>x. if seg_status x = ACTIVE \<and> seg_settlement_status x = UNREMITTED
                                  then seg_price (x, w) else 0) xs)"
proof (induction xs arbitrary: r u)
  case Nil
  then show ?case by simp
next
  case (Cons x xs)
  show ?case
  proof (cases "seg_status x = ACTIVE")
    case False
    with Cons.prems have "ledger_segments (hourly_rate w) xs (r, u) = Inr (r', u')" by simp
    from Cons.IH[OF this] False show ?thesis by simp
  next
    case True
    with Cons.prems obtain a where a: "calculate_segment_amount x (hourly_rate w) = Inr a"
      by (auto split: sum.splits)
    then have sp: "seg_price (x, w) = a" by (simp add: seg_price_def)
    show ?thesis
    proof (cases "seg_settlement_status x")
      case REMITTED
      with Cons.prems True a have "ledger_segments (hourly_rate w) xs (r + a, u) = Inr (r', u')" by simp
      from Cons.IH[OF this] True REMITTED sp show ?thesis by simp
    next
      case UNREMITTED
      with Cons.prems True a have "ledger_segments (hourly_rate w) xs (r, u + a) = Inr (r', u')" by simp
      from Cons.IH[OF this] True UNREMITTED sp show ?thesis by simp
    qed
  qed
qed

lemma ledger_adjustments_closed:
  "ledger_adjustments xs (r, u)
   = (r + sum_list (map (\<lambda>a. if adj_settlement_status a = REMITTED then amount a else 0) xs),
      u + sum_list (map (\<lambda>a. if adj_settlement_status a = UNREMITTED then amount a else 0) xs))"
proof (induction xs arbitrary: r u)
  case Nil
  then show ?case by simp
next
  case (Cons a xs)
  show ?case using Cons.IH by (cases "adj_settlement_status a") simp_all
qed

lemma sum_list_filter_cond:
  "sum_list (map (\<lambda>x. if Q x then f x else (0::rat)) (filter P xs))
   = sum_list (map (\<lambda>x. if P x \<and> Q x then f x else 0) xs)"
  by (induction xs) auto

text \<open>The ledger view in sums: what \<^verbatim>\<open>_calculate_worklog_amounts\<close> returns.\<close>

lemma calculate_worklog_amounts_ledger:
  assumes "calculate_worklog_amounts s w = Inr (r, u, t)"
  shows "r = ledger_amount REMITTED s w" and "u = ledger_amount UNREMITTED s w"
proof -
  from assms obtain r1 u1 where
    1: "ledger_segments (hourly_rate w) (wl_time_segments s w) (0, 0) = Inr (r1, u1)"
    and 2: "ledger_adjustments (wl_adjustments s w) (r1, u1) = (r, u)"
    by (auto simp: calculate_worklog_amounts_def split: sum.splits prod.splits)
  note c = ledger_segments_closed[OF 1]
  have seg: "sum_list (map (\<lambda>x. if seg_status x = ACTIVE \<and> seg_settlement_status x = st
                                then seg_price (x, w) else 0) (wl_time_segments s w))
        = sum_list (map (seg_due st w) (time_segments s))" for st
    unfolding wl_time_segments_def sum_list_filter_cond seg_due_def
    by (simp add: conj_ac cong: if_cong)
  have adj: "sum_list (map (\<lambda>a. if adj_settlement_status a = st then amount a else 0) (wl_adjustments s w))
        = sum_list (map (adj_due st w) (adjustments s))" for st
    unfolding wl_adjustments_def sum_list_filter_cond adj_due_def ..
  from 2 c show "r = ledger_amount REMITTED s w" "u = ledger_amount UNREMITTED s w"
    unfolding ledger_adjustments_closed ledger_amount_def seg adj by simp_all
qed

lemma calculate_after_add:
  assumes "calculate_worklog_amounts s w = Inr (r, u, t)" "adj_worklog_id adj = wl_id w"
  shows "calculate_worklog_amounts (add_adjustment adj s) w = Inr (r, u + amount adj, t + amount adj)"
proof -
  from assms(1) obtain r1 u1 where
    1: "ledger_segments (hourly_rate w) (wl_time_segments s w) (0, 0) = Inr (r1, u1)"
    and 2: "ledger_adjustments (wl_adjustments s w) (r1, u1) = (r, u)" and t: "t = r + u"
    by (auto simp: calculate_worklog_amounts_def split: sum.splits prod.splits)
  have a: "wl_adjustments (add_adjustment adj s) w
        = wl_adjustments s w @ [adj\<lparr>adj_settlement_status := UNREMITTED, adj_remittance_id := None\<rparr>]"
    using assms(2) by (simp add: wl_adjustments_def add_adjustment_def)
  have b: "wl_time_segments (add_adjustment adj s) w = wl_time_segments s w"
    by (simp add: wl_time_segments_def add_adjustment_def)
  show ?thesis
    unfolding calculate_worklog_amounts_def a b 1
    using 2 t by (simp add: ledger_adjustments_closed)
qed

lemma ledger_after_add:
  "adj_worklog_id adj = wl_id w \<Longrightarrow>
   ledger_amount UNREMITTED (add_adjustment adj s) w = ledger_amount UNREMITTED s w + amount adj"
  by (simp add: ledger_amount_def add_adjustment_def adj_due_def)

lemma wf_after_add:
  "wf_session s \<Longrightarrow> adj_id adj \<notin> adj_id ` set (adjustments s) \<Longrightarrow> wf_session (add_adjustment adj s)"
  by (simp add: wf_session_def add_adjustment_def)

lemma wf_paid_session: "wf_session paid_session"
  by (simp add: wf_session_def paid_session_def adj0_def wl0_def)

lemma paid_amounts:
  "calculate_worklog_amounts paid_session (wl0\<lparr>total_remitted_amount := 10, wl_remittance_id := Some 50\<rparr>)
     = Inr (10, 0, 10)"
  by code_simp

lemma paid_deduction_run:
  "case generate_remittances env0 (add_adjustment deduction0 paid_session) request0 of
     Inl e \<Rightarrow> False
   | Inr (s, r) \<Rightarrow> map total_remitted_amount (worklogs s) = [7]
       \<and> map net_amount (remittances s) = [- 3]"
  by code_simp

text \<open>
  C6, as the code has it. Let a worklog have unremitted amount 0 and a total other than
  0, so that it is classified REMITTED, and let a new adjustment be added to it. Its
  unremitted amount becomes the amount of the adjustment, and its classification becomes
  UNREMITTED exactly when that amount is positive or the new total is 0. Every COMPLETED
  call that is not a dry run then adds exactly the amount of the adjustment to the
  running total of the worklog, and keeps every REMITTED unit of the session as it was.
\<close>

theorem retroactive_adjustment:
  assumes "wf_session s" and "w \<in> set (worklogs s)"
    and "calculate_worklog_amounts s w = Inr (r, 0, t)" and "t \<noteq> 0"
    and "adj_worklog_id adj = wl_id w" and "adj_id adj \<notin> adj_id ` set (adjustments s)"
  shows "wl_status_of 0 t = ''REMITTED''
         \<and> calculate_worklog_amounts (add_adjustment adj s) w = Inr (r, amount adj, t + amount adj)
         \<and> (wl_status_of (amount adj) (t + amount adj) = ''UNREMITTED''
              \<longleftrightarrow> 0 < amount adj \<or> t + amount adj = 0)
         \<and> (\<forall>env request s' resp.
               generate_remittances env (add_adjustment adj s) request = Inr (s', resp)
               \<and> \<not> dry_run request \<and> outcome_status request = COMPLETED \<longrightarrow>
               list_all2 (\<lambda>v v'. wl_id v' = wl_id v
                            \<and> (v = w \<longrightarrow> total_remitted_amount v' = total_remitted_amount v + amount adj))
                 (worklogs s) (worklogs s')
               \<and> (\<forall>x\<in>set (time_segments s). seg_settlement_status x = REMITTED \<longrightarrow>
                     x \<in> set (time_segments s'))
               \<and> (\<forall>a\<in>set (adjustments s). adj_settlement_status a = REMITTED \<longrightarrow>
                     a \<in> set (adjustments s')))"
proof -
  let ?sa = "add_adjustment adj s"
  have wfa: "wf_session ?sa" by (rule wf_after_add[OF assms(1,6)])
  have wa: "w \<in> set (worklogs ?sa)" using assms(2) by (simp add: add_adjustment_def)
  have u0: "ledger_amount UNREMITTED s w = 0"
    using calculate_worklog_amounts_ledger(2)[OF assms(3)] by simp
  have ua: "ledger_amount UNREMITTED ?sa w = amount adj"
    using ledger_after_add[OF assms(5), of s] u0 by simp
  have 1: "wl_status_of 0 t = ''REMITTED''" using assms(4) by (simp add: wl_status_of_def)
  have 2: "calculate_worklog_amounts ?sa w = Inr (r, amount adj, t + amount adj)"
    using calculate_after_add[OF assms(3,5)] by simp
  have 3: "wl_status_of (amount adj) (t + amount adj) = ''UNREMITTED''
              \<longleftrightarrow> 0 < amount adj \<or> t + amount adj = 0"
    by (simp add: wl_status_of_def)
  have 4: "list_all2 (\<lambda>v v'. wl_id v' = wl_id v
                            \<and> (v = w \<longrightarrow> total_remitted_amount v' = total_remitted_amount v + amount adj))
                 (worklogs s) (worklogs s')
               \<and> (\<forall>x\<in>set (time_segments s). seg_settlement_status x = REMITTED \<longrightarrow>
                     x \<in> set (time_segments s'))
               \<and> (\<forall>a\<in>set (adjustments s). adj_settlement_status a = REMITTED \<longrightarrow>
                     a \<in> set (adjustments s'))"
    if g: "generate_remittances env ?sa request = Inr (s', resp)"
      and real: "\<not> dry_run request" and out: "outcome_status request = COMPLETED"
    for env request s' resp
  proof -
    let ?segs = "pair_worklogs ?sa seg_worklog_id (unremitted_segments ?sa)"
    let ?adjs = "pair_worklogs ?sa adj_worklog_id (unremitted_adjustments ?sa)"
    let ?pl = "plan (is_due ?segs ?adjs) (all_worker_ids ?segs ?adjs) 0"
    from g real out obtain period where
      s': "s' = fold (settle_worker env request period ?segs ?adjs) ?pl ?sa"
      by (rule generate_completed)
    have wls: "worklogs ?sa = worklogs s" by (simp add: add_adjustment_def)
    have a: "list_all2 (\<lambda>v v'. wl_id v' = wl_id v
                            \<and> (v = w \<longrightarrow> total_remitted_amount v' = total_remitted_amount v + amount adj))
                 (worklogs s) (worklogs s')"
      unfolding s' settled_worklogs wls
    proof (rule list_all2_map_self)
      fix v assume "v \<in> set (worklogs s)"
      show "wl_id (credit_all env ?segs ?adjs ?pl v) = wl_id v
            \<and> (v = w \<longrightarrow> total_remitted_amount (credit_all env ?segs ?adjs ?pl v)
                              = total_remitted_amount v + amount adj)"
        using settled_total[OF wfa wa, of env] ua by simp
    qed
    have st: "step_ok ?sa s'" by (rule generate_step_ok[OF g wfa])
    have b: "x \<in> set (time_segments s')"
      if "x \<in> set (time_segments s)" "seg_settlement_status x = REMITTED" for x
      using step_ok_persist(1)[OF st wfa, of x] that by (simp add: add_adjustment_def)
    have c: "a \<in> set (adjustments s')"
      if "a \<in> set (adjustments s)" "adj_settlement_status a = REMITTED" for a
      using step_ok_persist(2)[OF st wfa, of a] that by (simp add: add_adjustment_def)
    from a b c show ?thesis by blast
  qed
  from 1 2 3 4 show ?thesis by blast
qed

theorem retroactive_adjustment_witness:
  "calculate_worklog_amounts (add_adjustment deduction0 paid_session)
       (wl0\<lparr>total_remitted_amount := 10, wl_remittance_id := Some 50\<rparr>) = Inr (10, - 3, 7)
   \<and> wl_status_of (- 3) 7 \<noteq> ''UNREMITTED''
   \<and> (\<exists>s' resp. generate_remittances env0 (add_adjustment deduction0 paid_session) request0
                   = Inr (s', resp)
         \<and> map total_remitted_amount (worklogs s') = [7]
         \<and> set (adjustments paid_session) \<subseteq> set (adjustments s'))"
proof -
  let ?w = "wl0\<lparr>total_remitted_amount := 10, wl_remittance_id := Some 50\<rparr>"
  have w: "?w \<in> set (worklogs paid_session)" by (simp add: paid_session_def)
  have t: "(10::rat) \<noteq> 0" by simp
  have k: "adj_worklog_id deduction0 = wl_id ?w" by (simp add: deduction0_def wl0_def)
  have n: "adj_id deduction0 \<notin> adj_id ` set (adjustments paid_session)"
    by (simp add: deduction0_def paid_session_def adj0_def)
  note r = retroactive_adjustment[OF wf_paid_session w paid_amounts t k n]
  from paid_deduction_run obtain s' resp where
    g: "generate_remittances env0 (add_adjustment deduction0 paid_session) request0 = Inr (s', resp)"
    and tot: "map total_remitted_amount (worklogs s') = [7]"
    by (auto split: sum.splits)
  have h: "\<not> dry_run request0" "outcome_status request0 = COMPLETED"
    by (simp_all add: request0_def outcome_status_def)
  have a: "amount deduction0 = - 3" by (simp add: deduction0_def)
  from r have 1: "calculate_worklog_amounts (add_adjustment deduction0 paid_session) ?w = Inr (10, - 3, 7)"
    by (simp add: a)
  from r have "wl_status_of (amount deduction0) (10 + amount deduction0) = ''UNREMITTED''
              \<longleftrightarrow> 0 < amount deduction0 \<or> 10 + amount deduction0 = 0"
    by blast
  then have 2: "wl_status_of (- 3) 7 \<noteq> ''UNREMITTED''" by (simp add: a)
  from r g h have "\<forall>a\<in>set (adjustments paid_session). adj_settlement_status a = REMITTED \<longrightarrow>
                     a \<in> set (adjustments s')"
    by blast
  then have 3: "set (adjustments paid_session) \<subseteq> set (adjustments s')"
    by (simp add: paid_session_def)
  from 1 2 3 g tot show ?thesis by (intro conjI exI[of _ s'] exI[of _ resp])
qed

text \<open>
  C6 as stated fails for an amount that is not positive: a worklog paid 10 that receives
  a deduction of 3 reports unremitted \<open>- 3\<close> and total 7, and stays REMITTED.
\<close>

theorem deduction_keeps_classification:
  "(case list_all_worklogs paid_session None of
      Inl e \<Rightarrow> False
    | Inr (ws, n) \<Rightarrow>
        map remittance_status ws = [''REMITTED'']
        \<and> map (\<lambda>p. unremitted_amount (amounts p)) ws = [0])
   \<and> (case list_all_worklogs (add_adjustment deduction0 paid_session) None of
        Inl e \<Rightarrow> False
      | Inr (ws, n) \<Rightarrow>
          map remittance_status ws = [''REMITTED'']
          \<and> map (\<lambda>p. unremitted_amount (amounts p)) ws = [- 3]
          \<and> map (\<lambda>p. total_amount (amounts p)) ws = [7])"
  by code_simp

end
